theory Spec2Isabelle
  imports Main "HOL-Library.List_Lexorder"
begin

section \<open>Strings as the scripts use them\<close>

text \<open>
  The rules dashboard (the second template of \<^verbatim>\<open>view_rule.html\<close>) and the sidebar
  script (\<^verbatim>\<open>js/scripts.js\<close>, which \<^verbatim>\<open>base.html\<close> loads on every page) compare
  lower-cased, trimmed strings. Strings are byte lists here, so
  \<^verbatim>\<open>toLowerCase\<close> (and Jinja's \<^verbatim>\<open>lower\<close> filter) is modelled on the ASCII letters and
  \<^verbatim>\<open>trim\<close> on the ASCII white space; every other character is left alone.
\<close>

definition toLowerChar :: "char \<Rightarrow> char" where
  "toLowerChar c = (let n = (of_char c :: nat) in
     if 65 \<le> n \<and> n \<le> 90
     then Char (digit0 c) (digit1 c) (digit2 c) (digit3 c) (digit4 c) True (digit6 c) (digit7 c)
     else c)"

definition toLowerCase :: "string \<Rightarrow> string" where
  "toLowerCase s = map toLowerChar s"

definition isWhiteSpace :: "char \<Rightarrow> bool" where
  "isWhiteSpace c = ((of_char c :: nat) \<in> {9, 10, 11, 12, 13, 32})"

definition trim :: "string \<Rightarrow> string" where
  "trim s = rev (dropWhile isWhiteSpace (rev (dropWhile isWhiteSpace s)))"

fun startsWith :: "string \<Rightarrow> string \<Rightarrow> bool" where
  "startsWith s [] = True"
| "startsWith [] (c # t) = False"
| "startsWith (x # s) (c # t) = (x = c \<and> startsWith s t)"

text \<open>\<^verbatim>\<open>s.includes(t)\<close>: \<open>t\<close> occurs in \<open>s\<close> as a contiguous substring.\<close>

fun str_includes :: "string \<Rightarrow> string \<Rightarrow> bool" where
  "str_includes [] t = (t = [])"
| "str_includes (x # s) t = (startsWith (x # s) t \<or> str_includes s t)"

text \<open>The specification's wording: \<open>t\<close> is a substring of \<open>s\<close>.\<close>

definition is_substring :: "string \<Rightarrow> string \<Rightarrow> bool" where
  "is_substring t s \<longleftrightarrow> (\<exists>p q. s = p @ t @ q)"

text \<open>\<^verbatim>\<open>x || d\<close> on a possibly missing string: the default replaces a missing and an empty value.\<close>

definition or_default :: "string option \<Rightarrow> string \<Rightarrow> string" where
  "or_default x d = (case x of None \<Rightarrow> d | Some s \<Rightarrow> if s = [] then d else s)"

section \<open>The rule documents and the rendered table\<close>

text \<open>
  A rule as the backend hands it to the template and to \<^verbatim>\<open>/api/rules\<close>. A key that the
  document lacks is \<open>None\<close>; a date is given by the text Python prints for it.
\<close>

record rule_doc =
  doc_rule_id :: string
  doc_name :: string
  doc_description :: string
  doc_query :: string
  doc_action :: string
  doc_is_active :: "bool option"
  doc_created_date :: "string option"
  doc_modified_date :: "string option"

text \<open>
  One \<^verbatim>\<open><tr class="rule-row">\<close> of the dashboard: its data attributes, the text of its
  \<^verbatim>\<open>.query-preview\<close>, the classes the toggle handler edits, the status checkbox and the
  inline \<^verbatim>\<open>display\<close> style. The template writes every data attribute; \<open>data_active\<close> is
  optional so that the script's default for a missing one can be expressed.
\<close>

record row =
  data_name :: string
  data_action :: string
  data_created :: string
  data_modified :: string
  data_description :: string
  data_active :: "string option"
  query_preview :: string
  table_secondary :: bool
  link_text_dark :: bool
  link_text_muted :: bool
  pause_icon :: bool
  checked :: bool
  display :: string

text \<open>\<^verbatim>\<open>{{ rule.get('is_active', True) }}\<close>: Python prints a boolean capitalised.\<close>

definition get_is_active :: "rule_doc \<Rightarrow> bool" where
  "get_is_active d = (case doc_is_active d of None \<Rightarrow> True | Some b \<Rightarrow> b)"

definition py_str_bool :: "bool \<Rightarrow> string" where
  "py_str_bool b = (if b then ''True'' else ''False'')"

definition py_str_date :: "string option \<Rightarrow> string" where
  "py_str_date d = (case d of None \<Rightarrow> ''None'' | Some s \<Rightarrow> s)"

definition render_row :: "rule_doc \<Rightarrow> row" where
  "render_row d =
     \<lparr> data_name = toLowerCase (doc_name d),
       data_action = doc_action d,
       data_created = py_str_date (doc_created_date d),
       data_modified = py_str_date (doc_modified_date d),
       data_description = toLowerCase (doc_description d),
       data_active = Some (py_str_bool (get_is_active d)),
       query_preview = doc_query d,
       table_secondary = (\<not> get_is_active d),
       link_text_dark = get_is_active d,
       link_text_muted = (\<not> get_is_active d),
       pause_icon = (\<not> get_is_active d),
       checked = get_is_active d,
       display = [] \<rparr>"

text \<open>An entry of the script's \<^verbatim>\<open>allRules\<close> array; \<open>element\<close> is the address of its row.\<close>

record rule_entry =
  element :: nat
  name :: string
  action :: string
  description :: string
  created :: string
  modified :: string
  active :: string
  query :: string

definition snapshot :: "row list \<Rightarrow> nat \<Rightarrow> rule_entry" where
  "snapshot rs a =
     \<lparr> element = a,
       name = or_default (Some (data_name (rs ! a))) [],
       action = or_default (Some (data_action (rs ! a))) [],
       description = or_default (Some (data_description (rs ! a))) [],
       created = or_default (Some (data_created (rs ! a))) [],
       modified = or_default (Some (data_modified (rs ! a))) [],
       active = or_default (data_active (rs ! a)) ''True'',
       query = toLowerCase (or_default (Some (query_preview (rs ! a))) []) \<rparr>"

section \<open>The sidebar script\<close>

text \<open>
  \<^verbatim>\<open>base.html\<close> puts a sidebar with a search box in front of the content of every page
  and loads \<^verbatim>\<open>js/scripts.js\<close> after the content. The script keeps the rules fetched
  from \<^verbatim>\<open>/api/rules\<close> in \<^verbatim>\<open>rulesData\<close> and lists rules in \<^verbatim>\<open>#sidebarContent\<close>.
\<close>

record sidebar =
  rulesData :: "rule_doc list"
  sidebar_items :: "rule_doc list"
  searchRules :: string

datatype error = TypeError

text \<open>
  What a property lookup yields: a string, or a function or object. The object literal of
  \<^verbatim>\<open>getActionName\<close> inherits the members of \<^verbatim>\<open>Object.prototype\<close>, so
  \<^verbatim>\<open>names[action] || action\<close> finds one of them for an action of that name.
\<close>

datatype js_value = JString string | JObject

definition object_prototype_keys :: "string list" where
  "object_prototype_keys =
     [''constructor'', ''hasOwnProperty'', ''isPrototypeOf'', ''propertyIsEnumerable'',
      ''toLocaleString'', ''toString'', ''valueOf'', ''__proto__'', ''__defineGetter__'',
      ''__defineSetter__'', ''__lookupGetter__'', ''__lookupSetter__'']"

definition getActionName :: "string \<Rightarrow> js_value" where
  "getActionName a =
     (if a = ''sms'' then JString ''SMS''
      else if a = ''bank-sync'' then JString ''Bank''
      else if a = ''archive'' then JString ''Archive''
      else if a = ''email-forward'' then JString ''Email''
      else if a = ''webhook'' then JString ''Webhook''
      else if a = ''mark-read'' then JString ''Read''
      else if a \<in> set object_prototype_keys then JObject
      else JString a)"

text \<open>
  The callback of \<^verbatim>\<open>rulesData.filter\<close>. The alternatives are tried in order, and
  \<^verbatim>\<open>getActionName(rule.action).toLowerCase()\<close> is reached only when the first four fail;
  on a value that is no string it throws.
\<close>

definition sidebar_matches :: "string \<Rightarrow> rule_doc \<Rightarrow> error + bool" where
  "sidebar_matches term rule =
     (if str_includes (toLowerCase (doc_name rule)) term
         \<or> str_includes (toLowerCase (doc_description rule)) term
         \<or> str_includes (toLowerCase (doc_query rule)) term
         \<or> str_includes (toLowerCase (doc_action rule)) term
      then Inr True
      else case getActionName (doc_action rule) of
             JString s \<Rightarrow> Inr (str_includes (toLowerCase s) term)
           | JObject \<Rightarrow> Inl TypeError)"

text \<open>\<^verbatim>\<open>Array.prototype.filter\<close> with a callback that may throw: the first throw ends it.\<close>

fun filter_throwing :: "('a \<Rightarrow> error + bool) \<Rightarrow> 'a list \<Rightarrow> error + 'a list" where
  "filter_throwing f [] = Inr []"
| "filter_throwing f (x # xs) =
     (case f x of
        Inl e \<Rightarrow> Inl e
      | Inr b \<Rightarrow> (case filter_throwing f xs of
                    Inl e \<Rightarrow> Inl e
                  | Inr ys \<Rightarrow> Inr (if b then x # ys else ys)))"

text \<open>\<^verbatim>\<open>renderRulesList\<close> replaces the listed items (an empty list shows a message).\<close>

definition renderRulesList :: "rule_doc list \<Rightarrow> sidebar \<Rightarrow> sidebar" where
  "renderRulesList rules sb = sb\<lparr> sidebar_items := rules \<rparr>"

text \<open>
  \<^verbatim>\<open>filterRules(searchTerm)\<close> of the sidebar script. The argument is \<open>None\<close> when the
  caller passes none: \<^verbatim>\<open>searchTerm.toLowerCase()\<close> then throws before anything is read
  or written.
\<close>

definition sidebar_filterRules :: "string option \<Rightarrow> sidebar \<Rightarrow> error + sidebar" where
  "sidebar_filterRules searchTerm sb =
     (case searchTerm of
        None \<Rightarrow> Inl TypeError
      | Some s \<Rightarrow>
          (let term = trim (toLowerCase s)
           in if term = [] then Inr (renderRulesList (rulesData sb) sb)
              else case filter_throwing (sidebar_matches term) (rulesData sb) of
                     Inl e \<Rightarrow> Inl e
                   | Inr filteredRules \<Rightarrow> Inr (renderRulesList filteredRules sb)))"

section \<open>The dashboard page\<close>

text \<open>
  The page: the rows live in a store addressed by their index, \<open>tbody\<close> is the order of
  the rows in the table body, and \<open>allRules\<close> refers to rows by address, as the script's
  objects refer to the DOM elements. The filter controls are the search box, the
  ``All Types'' box, the action boxes (value and checked flag) and the two status boxes;
  \<open>rulesCount\<close> is the text of \<^verbatim>\<open>#rulesCount\<close>, which exists only when rules were rendered;
  \<open>alerts\<close> collects the messages shown with \<^verbatim>\<open>alert\<close>; \<open>side\<close> is the sidebar of
  \<^verbatim>\<open>base.html\<close>.
\<close>

record page =
  rows :: "row list"
  tbody :: "nat list"
  allRules :: "rule_entry list"
  searchInput :: string
  filterAll :: bool
  action_boxes :: "(string \<times> bool) list"
  filterActive :: bool
  filterInactive :: bool
  rulesCount :: "nat option"
  alerts :: "string list"
  side :: sidebar

definition render_page :: "string list \<Rightarrow> rule_doc list \<Rightarrow> page" where
  "render_page action_types rules =
     \<lparr> rows = map render_row rules,
       tbody = [0..<length rules],
       allRules = [],
       searchInput = [],
       filterAll = True,
       action_boxes = map (\<lambda>k. (k, True)) action_types,
       filterActive = True,
       filterInactive = True,
       rulesCount = (if rules = [] then None else Some (length rules)),
       alerts = [],
       side = \<lparr> rulesData = [], sidebar_items = [], searchRules = [] \<rparr> \<rparr>"

section \<open>The dashboard script's filterRules\<close>

text \<open>
  The function \<^verbatim>\<open>filterRules()\<close> that the dashboard template declares inline
  (\<^verbatim>\<open>view_rule.html\<close>, lines 623 to 690), as it is written.
\<close>

definition actionFilters :: "page \<Rightarrow> string list" where
  "actionFilters p = map fst (filter snd (action_boxes p))"

definition statusFilters :: "page \<Rightarrow> string list" where
  "statusFilters p =
     (if filterActive p then [''active''] else []) @
     (if filterInactive p then [''inactive''] else [])"

definition matchesSearch :: "string \<Rightarrow> rule_entry \<Rightarrow> bool" where
  "matchesSearch searchTerm rule \<longleftrightarrow>
     searchTerm = []
     \<or> (name rule \<noteq> [] \<and> str_includes (name rule) searchTerm)
     \<or> (description rule \<noteq> [] \<and> str_includes (description rule) searchTerm)
     \<or> (query rule \<noteq> [] \<and> str_includes (query rule) searchTerm)"

definition matchesAction :: "bool \<Rightarrow> string list \<Rightarrow> rule_entry \<Rightarrow> bool" where
  "matchesAction fAll aFilters rule \<longleftrightarrow> fAll \<or> action rule \<in> set aFilters"

definition ruleIsActive :: "rule_entry \<Rightarrow> bool" where
  "ruleIsActive rule \<longleftrightarrow> active rule = ''True''"

definition matchesStatus :: "string list \<Rightarrow> rule_entry \<Rightarrow> bool" where
  "matchesStatus sFilters rule \<longleftrightarrow>
     (''active'' \<in> set sFilters \<and> ruleIsActive rule)
     \<or> (''inactive'' \<in> set sFilters \<and> \<not> ruleIsActive rule)"

definition rule_matches :: "string \<Rightarrow> bool \<Rightarrow> string list \<Rightarrow> string list \<Rightarrow> rule_entry \<Rightarrow> bool" where
  "rule_matches searchTerm fAll aFilters sFilters rule \<longleftrightarrow>
     matchesSearch searchTerm rule \<and> matchesAction fAll aFilters rule
     \<and> matchesStatus sFilters rule"

text \<open>The body of the \<^verbatim>\<open>forEach\<close>: show or hide the entry's row and count the shown ones.\<close>

definition filter_step :: "(rule_entry \<Rightarrow> bool) \<Rightarrow> rule_entry \<Rightarrow> row list \<times> nat \<Rightarrow> row list \<times> nat" where
  "filter_step vis rule st =
     (case st of (rs, visibleCount) \<Rightarrow>
        if vis rule
        then (rs[element rule := (rs ! element rule)\<lparr>display := []\<rparr>], visibleCount + 1)
        else (rs[element rule := (rs ! element rule)\<lparr>display := ''none''\<rparr>], visibleCount))"

definition filterRules :: "page \<Rightarrow> page" where
  "filterRules p =
     (let searchTerm = trim (toLowerCase (searchInput p));
          rules = (if allRules p = [] then map (snapshot (rows p)) (tbody p) else allRules p);
          res = fold (filter_step (rule_matches searchTerm (filterAll p) (actionFilters p)
                                     (statusFilters p))) rules (rows p, 0)
      in p\<lparr> allRules := rules, rows := fst res,
             rulesCount := map_option (\<lambda>_. snd res) (rulesCount p) \<rparr>)"

text \<open>The number the loop of \<^verbatim>\<open>filterRules\<close> computes, whether or not an element shows it.\<close>

definition visibleCount :: "page \<Rightarrow> nat" where
  "visibleCount p =
     (let searchTerm = trim (toLowerCase (searchInput p));
          rules = (if allRules p = [] then map (snapshot (rows p)) (tbody p) else allRules p)
      in snd (fold (filter_step (rule_matches searchTerm (filterAll p) (actionFilters p)
                                   (statusFilters p))) rules (rows p, 0)))"

text \<open>A row is visible when its inline \<^verbatim>\<open>display\<close> is empty.\<close>

definition visible :: "page \<Rightarrow> nat \<Rightarrow> bool" where
  "visible p a \<longleftrightarrow> display (rows p ! a) = []"

definition visible_rows :: "page \<Rightarrow> nat list" where
  "visible_rows p = filter (visible p) (tbody p)"

section \<open>The assembled page\<close>

text \<open>
  \<^verbatim>\<open>base.html\<close> renders the content block, with the dashboard's inline script, and loads
  \<^verbatim>\<open>js/scripts.js\<close> after it. Both declare a global function \<^verbatim>\<open>filterRules\<close>, and the
  later declaration replaces the earlier one: once the page is loaded, every
  \<^verbatim>\<open>filterRules()\<close> of the dashboard's handlers and listeners calls the sidebar script's
  function, without an argument. An exception ends the handler that made the call; what
  the handler or the browser wrote before stays. \<^verbatim>\<open>sortRules\<close> and \<^verbatim>\<open>toggleRuleStatus\<close> are
  declared once only.
\<close>

definition call_filterRules :: "page \<Rightarrow> page" where
  "call_filterRules p =
     (case sidebar_filterRules None (side p) of Inl e \<Rightarrow> p | Inr sb \<Rightarrow> p\<lparr> side := sb \<rparr>)"

text \<open>\<^verbatim>\<open>DOMContentLoaded\<close>: the inline listener takes the snapshot of the rows, then calls.\<close>

definition DOMContentLoaded :: "page \<Rightarrow> page" where
  "DOMContentLoaded p = call_filterRules (p\<lparr> allRules := map (snapshot (rows p)) (tbody p) \<rparr>)"

definition loadRules :: "string list \<Rightarrow> rule_doc list \<Rightarrow> page" where
  "loadRules action_types rules = DOMContentLoaded (render_page action_types rules)"

text \<open>
  The events of the filter controls, after the browser has changed the control. Each
  control calls \<^verbatim>\<open>filterRules()\<close> from its attribute; the ``All Types'' box and the action
  boxes have a listener as well, which writes the other boxes and calls again.
\<close>

definition on_search_input :: "string \<Rightarrow> page \<Rightarrow> page" where
  "on_search_input s p = call_filterRules (p\<lparr> searchInput := s \<rparr>)"

definition on_status_filter_change :: "bool \<Rightarrow> bool \<Rightarrow> page \<Rightarrow> page" where
  "on_status_filter_change act inact p =
     call_filterRules (p\<lparr> filterActive := act, filterInactive := inact \<rparr>)"

definition on_filterAll_change :: "bool \<Rightarrow> page \<Rightarrow> page" where
  "on_filterAll_change b p =
     (let p1 = call_filterRules (p\<lparr> filterAll := b \<rparr>)
      in call_filterRules (p1\<lparr> action_boxes := map (\<lambda>(k, _). (k, b)) (action_boxes p1) \<rparr>))"

definition on_action_filter_change :: "string \<Rightarrow> bool \<Rightarrow> page \<Rightarrow> page" where
  "on_action_filter_change k b p =
     (let p1 = call_filterRules
                 (p\<lparr> action_boxes := map (\<lambda>(k', c). (k', if k' = k then b else c)) (action_boxes p) \<rparr>)
      in call_filterRules (p1\<lparr> filterAll := list_all snd (action_boxes p1) \<rparr>))"

section \<open>sortRules\<close>

text \<open>
  A comparison function is consistent on a set when, on its elements, comparing is
  reflexive, reversing the arguments reverses the sign, and ``not greater'' is transitive.
\<close>

definition consistent_on :: "('a \<Rightarrow> 'a \<Rightarrow> int) \<Rightarrow> 'a set \<Rightarrow> bool" where
  "consistent_on cmp A \<longleftrightarrow>
     (\<forall>a\<in>A. cmp a a = 0) \<and> (\<forall>a\<in>A. \<forall>b\<in>A. cmp a b < 0 \<longleftrightarrow> 0 < cmp b a)
     \<and> (\<forall>a\<in>A. \<forall>b\<in>A. \<forall>c\<in>A. cmp a b \<le> 0 \<and> cmp b c \<le> 0 \<longrightarrow> cmp a c \<le> 0)"

text \<open>
  The stable sorted order, by insertion: an element moves in front of the first element
  it does not compare greater than.
\<close>

fun insert_by :: "('a \<Rightarrow> 'a \<Rightarrow> int) \<Rightarrow> 'a \<Rightarrow> 'a list \<Rightarrow> 'a list" where
  "insert_by cmp x [] = [x]"
| "insert_by cmp x (y # ys) = (if cmp x y \<le> 0 then x # y # ys else y # insert_by cmp x ys)"

definition stable_sort :: "('a \<Rightarrow> 'a \<Rightarrow> int) \<Rightarrow> 'a list \<Rightarrow> 'a list" where
  "stable_sort cmp xs = foldr (insert_by cmp) xs []"

definition perm_of :: "'a list \<Rightarrow> 'a list \<Rightarrow> bool" where
  "perm_of ys xs \<longleftrightarrow> (\<forall>x\<in>set xs \<union> set ys. count_list ys x = count_list xs x)"

text \<open>
  \<^verbatim>\<open>Array.prototype.sort\<close> with a comparison function. Where the function is consistent
  on the elements, the language standard fixes the result: the stable sorted order.
  Otherwise the order is implementation-defined: it is the permutation that the engine,
  the parameter \<open>impl\<close>, gives (a value of \<open>impl\<close> that is no permutation of the elements
  cannot be the engine's, and the list is left as it is).
\<close>

definition array_sort ::
  "(('a \<Rightarrow> 'a \<Rightarrow> int) \<Rightarrow> 'a list \<Rightarrow> 'a list) \<Rightarrow> ('a \<Rightarrow> 'a \<Rightarrow> int) \<Rightarrow> 'a list \<Rightarrow> 'a list" where
  "array_sort impl cmp xs =
     (if consistent_on cmp (set xs) then stable_sort cmp xs
      else if perm_of (impl cmp xs) xs then impl cmp xs
      else xs)"

text \<open>
  \<^verbatim>\<open>bVal - aVal\<close> on two \<^verbatim>\<open>Date\<close> objects: the difference of the time values, and
  \<^verbatim>\<open>NaN\<close> when either date is invalid (\<open>None\<close>); the sort reads a \<^verbatim>\<open>NaN\<close> result as 0.
\<close>

definition date_minus :: "int option \<Rightarrow> int option \<Rightarrow> int" where
  "date_minus b a = (case (b, a) of (Some y, Some x) \<Rightarrow> y - x | _ \<Rightarrow> 0)"

text \<open>
  The comparison function of \<^verbatim>\<open>sortRules\<close>. \<open>localeCompare\<close> is the engine's collation
  and \<open>Date\<close> its date parser (the time value in milliseconds, \<open>None\<close> for an invalid
  date); both are parameters.
\<close>

definition compareRows ::
  "(string \<Rightarrow> string \<Rightarrow> int) \<Rightarrow> (string \<Rightarrow> int option) \<Rightarrow> string \<Rightarrow> row \<Rightarrow> row \<Rightarrow> int" where
  "compareRows localeCompare Date sortBy a b =
     (if sortBy = ''name'' then localeCompare (data_name a) (data_name b)
      else if sortBy = ''action'' then localeCompare (data_action a) (data_action b)
      else if sortBy = ''created'' then date_minus (Date (data_created b)) (Date (data_created a))
      else date_minus (Date (data_modified b)) (Date (data_modified a)))"

definition sortRules ::
  "((nat \<Rightarrow> nat \<Rightarrow> int) \<Rightarrow> nat list \<Rightarrow> nat list) \<Rightarrow> (string \<Rightarrow> string \<Rightarrow> int)
     \<Rightarrow> (string \<Rightarrow> int option) \<Rightarrow> string \<Rightarrow> page \<Rightarrow> page" where
  "sortRules impl localeCompare Date sortBy p =
     (let sorted_rows =
            array_sort impl
              (\<lambda>a b. compareRows localeCompare Date sortBy (rows p ! a) (rows p ! b)) (tbody p)
      in p\<lparr> tbody := sorted_rows, allRules := map (snapshot (rows p)) sorted_rows \<rparr>)"

section \<open>toggleRuleStatus\<close>


text \<open>
  What the \<^verbatim>\<open>fetch\<close> of the toggle endpoint comes to: the call or the reading of the
  body throws (with the error's message), the response is not ok, or it is ok and its
  body carries \<^verbatim>\<open>is_active\<close>.
\<close>

datatype fetch_outcome = Throws string | NotOk | OkData bool

text \<open>Assigning a boolean to \<^verbatim>\<open>dataset.active\<close> stores JavaScript's text of it.\<close>

definition js_string_bool :: "bool \<Rightarrow> string" where
  "js_string_bool b = (if b then ''true'' else ''false'')"

definition style_row :: "bool \<Rightarrow> row \<Rightarrow> row" where
  "style_row is_active r =
     (if is_active
      then r\<lparr> table_secondary := False, link_text_muted := False, link_text_dark := True,
              pause_icon := False \<rparr>
      else r\<lparr> table_secondary := True, link_text_dark := False, link_text_muted := True,
              pause_icon := True \<rparr>)"

text \<open>
  The handler on the dashboard. \<open>cb\<close> is the address of the row that holds the checkbox;
  the rule id only names the URL. The handler runs on the \<^verbatim>\<open>change\<close> event, that is
  after the browser has flipped the checkbox, so \<open>originalChecked\<close> is the flipped value.
\<close>

definition toggleRuleStatus :: "string \<Rightarrow> nat \<Rightarrow> fetch_outcome \<Rightarrow> page \<Rightarrow> page" where
  "toggleRuleStatus ruleId cb resp p =
     (let originalChecked = checked (rows p ! cb)
      in case resp of
           OkData is_active \<Rightarrow>
             p\<lparr> rows := (rows p)[cb := (style_row is_active (rows p ! cb))
                                        \<lparr>data_active := Some (js_string_bool is_active)\<rparr>] \<rparr>
         | NotOk \<Rightarrow>
             p\<lparr> rows := (rows p)[cb := (rows p ! cb)\<lparr>checked := \<not> originalChecked\<rparr>],
                alerts := alerts p @ [''Failed to toggle rule status''] \<rparr>
         | Throws msg \<Rightarrow>
             p\<lparr> rows := (rows p)[cb := (rows p ! cb)\<lparr>checked := \<not> originalChecked\<rparr>],
                alerts := alerts p @ [''Error toggling rule status: '' @ msg] \<rparr>)"

text \<open>The user's click on the status switch: the browser flips it, then the handler runs.\<close>

definition click_status :: "nat \<Rightarrow> page \<Rightarrow> page" where
  "click_status cb p = p\<lparr> rows := (rows p)[cb := (rows p ! cb)\<lparr>checked := \<not> checked (rows p ! cb)\<rparr>] \<rparr>"

definition toggleStatus :: "string \<Rightarrow> nat \<Rightarrow> fetch_outcome \<Rightarrow> page \<Rightarrow> page" where
  "toggleStatus ruleId cb resp p = toggleRuleStatus ruleId cb resp (click_status cb p)"

text \<open>
  The rule's own page (the first template of \<^verbatim>\<open>view_rule.html\<close>) has the switch and the
  text \<^verbatim>\<open>#status-text\<close>. Its handler writes the first \<^verbatim>\<open>.badge\<close> of the document. The
  sidebar of \<^verbatim>\<open>base.html\<close> precedes the content, and every rule listed in it carries a
  badge, so the first badge is the status badge only while the sidebar lists nothing.
\<close>

record badge =
  className :: string
  innerHTML :: string

record detail =
  status_toggle :: bool
  status_text :: string
  sidebar_badges :: "badge list"
  status_badge :: badge
  detail_alerts :: "string list"

definition nl :: string where
  "nl = [CHR 0x0A]"

definition spaces :: "nat \<Rightarrow> string" where
  "spaces n = replicate n (CHR '' '')"

text \<open>The page as the template renders it, white space included; the sidebar starts empty.\<close>

definition render_detail :: "rule_doc \<Rightarrow> detail" where
  \<open>render_detail d =
     \<lparr> status_toggle = get_is_active d,
       status_text =
         (if get_is_active d
          then nl @ spaces 18 @ '' Rule is active'' @ nl @ spaces 18 @ ''and processing emails ''
                 @ nl @ spaces 16
          else nl @ spaces 18 @ '' Rule is inactive'' @ nl @ spaces 18
                 @ ''and not processing emails '' @ nl @ spaces 16),
       sidebar_badges = [],
       status_badge =
         (if get_is_active d
          then \<lparr> className = ''badge bg-success ms-2'',
                 innerHTML = nl @ spaces 14 @ ''<i class="bi bi-play-circle me-1"></i>Active''
                               @ nl @ spaces 12 \<rparr>
          else \<lparr> className = ''badge bg-secondary ms-2'',
                 innerHTML = nl @ spaces 14 @ ''<i class="bi bi-pause-circle me-1"></i>Inactive''
                               @ nl @ spaces 12 \<rparr>),
       detail_alerts = [] \<rparr>\<close>

text \<open>\<^verbatim>\<open>document.querySelector('.badge')\<close>: the first badge in document order is written.\<close>

definition write_first_badge :: "badge \<Rightarrow> detail \<Rightarrow> detail" where
  "write_first_badge b v =
     (case sidebar_badges v of
        [] \<Rightarrow> v\<lparr> status_badge := b \<rparr>
      | x # xs \<Rightarrow> v\<lparr> sidebar_badges := b # xs \<rparr>)"

definition detail_toggleRuleStatus :: "string \<Rightarrow> fetch_outcome \<Rightarrow> detail \<Rightarrow> detail" where
  \<open>detail_toggleRuleStatus ruleId resp v =
     (let originalChecked = status_toggle v
      in case resp of
           OkData is_active \<Rightarrow>
             (if is_active
              then write_first_badge
                     \<lparr> className = ''badge bg-success ms-2'',
                       innerHTML = ''<i class="bi bi-play-circle me-1"></i>Active'' \<rparr>
                     (v\<lparr> status_text := ''Rule is active and processing emails'' \<rparr>)
              else write_first_badge
                     \<lparr> className = ''badge bg-secondary ms-2'',
                       innerHTML = ''<i class="bi bi-pause-circle me-1"></i>Inactive'' \<rparr>
                     (v\<lparr> status_text := ''Rule is inactive and not processing emails'' \<rparr>))
         | NotOk \<Rightarrow>
             v\<lparr> status_toggle := \<not> originalChecked,
                detail_alerts := detail_alerts v @ [''Failed to toggle rule status''] \<rparr>
         | Throws msg \<Rightarrow>
             v\<lparr> status_toggle := \<not> originalChecked,
                detail_alerts := detail_alerts v @ [''Error toggling rule status: '' @ msg] \<rparr>)\<close>

definition detail_toggleStatus :: "string \<Rightarrow> fetch_outcome \<Rightarrow> detail \<Rightarrow> detail" where
  "detail_toggleStatus ruleId resp v =
     detail_toggleRuleStatus ruleId resp (v\<lparr> status_toggle := \<not> status_toggle v \<rparr>)"

section \<open>Sequences of operations\<close>

text \<open>The user's operations on the loaded dashboard.\<close>

datatype event =
    SearchInput string
  | StatusFilterChange bool bool
  | FilterAllChange bool
  | ActionFilterChange string bool
  | Sort string
  | Toggle nat fetch_outcome

definition apply_event ::
  "((nat \<Rightarrow> nat \<Rightarrow> int) \<Rightarrow> nat list \<Rightarrow> nat list) \<Rightarrow> (string \<Rightarrow> string \<Rightarrow> int)
     \<Rightarrow> (string \<Rightarrow> int option) \<Rightarrow> event \<Rightarrow> page \<Rightarrow> page" where
  "apply_event impl localeCompare Date ev p =
     (case ev of
        SearchInput s \<Rightarrow> on_search_input s p
      | StatusFilterChange act inact \<Rightarrow> on_status_filter_change act inact p
      | FilterAllChange b \<Rightarrow> on_filterAll_change b p
      | ActionFilterChange k b \<Rightarrow> on_action_filter_change k b p
      | Sort sortBy \<Rightarrow> sortRules impl localeCompare Date sortBy p
      | Toggle cb resp \<Rightarrow> toggleStatus [] cb resp p)"

definition run ::
  "((nat \<Rightarrow> nat \<Rightarrow> int) \<Rightarrow> nat list \<Rightarrow> nat list) \<Rightarrow> (string \<Rightarrow> string \<Rightarrow> int)
     \<Rightarrow> (string \<Rightarrow> int option) \<Rightarrow> event list \<Rightarrow> page \<Rightarrow> page" where
  "run impl localeCompare Date evs p = fold (apply_event impl localeCompare Date) evs p"

section \<open>Properties used to state the claims\<close>

text \<open>
  What a row keeps of the document it was rendered from, whatever is toggled, filtered or
  sorted afterwards: its name, description, action, query text and dates.
\<close>

definition static_of :: "rule_doc \<Rightarrow> row \<Rightarrow> bool" where
  "static_of d r \<longleftrightarrow>
     data_name r = toLowerCase (doc_name d) \<and> data_action r = doc_action d
     \<and> data_description r = toLowerCase (doc_description d)
     \<and> query_preview r = doc_query d
     \<and> data_created r = py_str_date (doc_created_date d)
     \<and> data_modified r = py_str_date (doc_modified_date d)"

definition entry_static :: "row list \<Rightarrow> rule_entry \<Rightarrow> bool" where
  "entry_static rs r \<longleftrightarrow>
     name r = data_name (rs ! element r) \<and> action r = data_action (rs ! element r)
     \<and> description r = data_description (rs ! element r)
     \<and> query r = toLowerCase (query_preview (rs ! element r))"

text \<open>The shape every page has once the rules \<open>docs\<close> are loaded.\<close>

definition page_inv :: "rule_doc list \<Rightarrow> page \<Rightarrow> bool" where
  "page_inv docs p \<longleftrightarrow>
     length (rows p) = length docs
     \<and> (\<forall>a<length docs. static_of (docs ! a) (rows p ! a))
     \<and> distinct (tbody p) \<and> set (tbody p) = {..<length docs}
     \<and> map element (allRules p) = tbody p
     \<and> (\<forall>r\<in>set (allRules p). entry_static (rows p) r)
     \<and> (rulesCount p = None \<longleftrightarrow> docs = [])"

text \<open>
  On the loaded page no row has been hidden and the count is the one the template wrote.
\<close>

definition unfiltered :: "rule_doc list \<Rightarrow> page \<Rightarrow> bool" where
  "unfiltered docs p \<longleftrightarrow>
     (\<forall>a<length docs. display (rows p ! a) = [])
     \<and> rulesCount p = (if docs = [] then None else Some (length docs))"

text \<open>
  A consistent comparison function in the sense of the language standard: consistent on
  all values.
\<close>

definition consistent_comparator :: "('a \<Rightarrow> 'a \<Rightarrow> int) \<Rightarrow> bool" where
  "consistent_comparator cmp \<longleftrightarrow>
     (\<forall>a. cmp a a = 0) \<and> (\<forall>a b. cmp a b < 0 \<longleftrightarrow> 0 < cmp b a)
     \<and> (\<forall>a b c. cmp a b \<le> 0 \<and> cmp b c \<le> 0 \<longrightarrow> cmp a c \<le> 0)"

text \<open>
  The matching rule in the specification's words, on the loaded documents: the search
  term is blank or a substring of the lower-cased name, description or query; the action
  filter is ``all'' or holds the action; the resolved active state is selected.
\<close>

definition doc_passes :: "page \<Rightarrow> rule_doc \<Rightarrow> bool" where
  "doc_passes p d \<longleftrightarrow>
     (trim (toLowerCase (searchInput p)) = []
      \<or> is_substring (trim (toLowerCase (searchInput p))) (toLowerCase (doc_name d))
      \<or> is_substring (trim (toLowerCase (searchInput p))) (toLowerCase (doc_description d))
      \<or> is_substring (trim (toLowerCase (searchInput p))) (toLowerCase (doc_query d)))
     \<and> (filterAll p \<or> doc_action d \<in> set (actionFilters p))
     \<and> ((get_is_active d \<and> filterActive p) \<or> (\<not> get_is_active d \<and> filterInactive p))"

text \<open>
  The controls set so that only the status boxes restrict: a blank search term and
  ``All Types'' checked.
\<close>

definition status_only :: "bool \<Rightarrow> bool \<Rightarrow> page \<Rightarrow> page" where
  "status_only act inact p =
     p\<lparr> searchInput := [], filterAll := True, filterActive := act, filterInactive := inact \<rparr>"

text \<open>The words of a text, white space aside.\<close>

fun split_words :: "string \<Rightarrow> string \<Rightarrow> string list" where
  "split_words w [] = (if w = [] then [] else [rev w])"
| "split_words w (c # cs) =
     (if isWhiteSpace c then (if w = [] then split_words [] cs else rev w # split_words [] cs)
      else split_words (c # w) cs)"

definition words :: "string \<Rightarrow> string list" where
  "words s = split_words [] s"

section \<open>Instances for concrete runs\<close>

text \<open>
  Two collations: strings compared by length only; and strings compared by code units
  without regard to case, with the lower-case string first among strings that differ
  in case only.
\<close>

definition length_compare :: "string \<Rightarrow> string \<Rightarrow> int" where
  "length_compare a b = int (length a) - int (length b)"

definition codeunits :: "string \<Rightarrow> nat list" where
  "codeunits s = map of_char s"

definition codeunit_compare :: "string \<Rightarrow> string \<Rightarrow> int" where
  "codeunit_compare a b =
     (if codeunits a < codeunits b then - 1 else if codeunits b < codeunits a then 1 else 0)"

definition case_aware_compare :: "string \<Rightarrow> string \<Rightarrow> int" where
  "case_aware_compare a b =
     (if codeunit_compare (toLowerCase a) (toLowerCase b) \<noteq> 0
      then codeunit_compare (toLowerCase a) (toLowerCase b)
      else codeunit_compare b a)"

text \<open>An engine whose implementation-defined order is the reverse of the list.\<close>

definition reverse_order :: "(nat \<Rightarrow> nat \<Rightarrow> int) \<Rightarrow> nat list \<Rightarrow> nat list" where
  "reverse_order cmp xs = rev xs"


text \<open>
  A date parser for concrete runs: the text Python prints for a datetime,
  \<^verbatim>\<open>YYYY-MM-DD HH:MM:SS\<close> with an optional fraction, read as UTC; anything else,
  such as \<^verbatim>\<open>None\<close> or the empty text, is an invalid date.
\<close>

definition digit_of :: "char \<Rightarrow> nat option" where
  "digit_of c = (let n = (of_char c :: nat) in if 48 \<le> n \<and> n \<le> 57 then Some (n - 48) else None)"

fun digits_acc :: "nat \<Rightarrow> string \<Rightarrow> nat option" where
  "digits_acc n [] = Some n"
| "digits_acc n (c # cs) = (case digit_of c of None \<Rightarrow> None | Some d \<Rightarrow> digits_acc (10 * n + d) cs)"

definition number_of :: "string \<Rightarrow> nat option" where
  "number_of s = (if s = [] then None else digits_acc 0 s)"

definition fraction_ms :: "string \<Rightarrow> nat option" where
  "fraction_ms s =
     (case s of
        [] \<Rightarrow> Some 0
      | c # ds \<Rightarrow> if c = CHR ''.'' \<and> ds \<noteq> [] \<and> list_all (\<lambda>d. digit_of d \<noteq> None) ds
                  then number_of (take 3 (ds @ ''00''))
                  else None)"

definition days_from_civil :: "int \<Rightarrow> int \<Rightarrow> int \<Rightarrow> int" where
  "days_from_civil y m d =
     (let y' = (if m \<le> 2 then y - 1 else y);
          era = y' div 400;
          yoe = y' - era * 400;
          doy = (153 * (if 2 < m then m - 3 else m + 9) + 2) div 5 + d - 1;
          doe = yoe * 365 + yoe div 4 - yoe div 100 + doy
      in era * 146097 + doe - 719468)"

definition Date_parse :: "string \<Rightarrow> int option" where
  "Date_parse s =
     (if length s < 19 \<or> s ! 4 \<noteq> CHR ''-'' \<or> s ! 7 \<noteq> CHR ''-''
         \<or> (s ! 10 \<noteq> CHR '' '' \<and> s ! 10 \<noteq> CHR ''T'')
         \<or> s ! 13 \<noteq> CHR '':'' \<or> s ! 16 \<noteq> CHR '':''
      then None
      else case (number_of (take 4 s), number_of (take 2 (drop 5 s)),
                 number_of (take 2 (drop 8 s)), number_of (take 2 (drop 11 s)),
                 number_of (take 2 (drop 14 s)), number_of (take 2 (drop 17 s)),
                 fraction_ms (drop 19 s)) of
             (Some y, Some mo, Some d, Some h, Some mi, Some sec, Some ms) \<Rightarrow>
               if 1 \<le> mo \<and> mo \<le> 12 \<and> 1 \<le> d \<and> d \<le> 31 \<and> h < 24 \<and> mi < 60 \<and> sec < 60
               then Some (((days_from_civil (int y) (int mo) (int d) * 24 + int h) * 60 + int mi)
                            * 60000 + int sec * 1000 + int ms)
               else None
           | _ \<Rightarrow> None)"

text \<open>The time value \<^verbatim>\<open>sortRules\<close> reads off a row for the key \<^verbatim>\<open>modified\<close>.\<close>


text \<open>The time value \<^verbatim>\<open>sortRules\<close> reads off a row for the key \<^verbatim>\<open>modified\<close>.\<close>

definition modified_time :: "(string \<Rightarrow> int option) \<Rightarrow> page \<Rightarrow> nat \<Rightarrow> int option" where
  "modified_time Date p a = Date (data_modified (rows p ! a))"

text \<open>A time value with 0 standing in for an invalid date.\<close>

definition time_or_0 :: "int option \<Rightarrow> int" where
  "time_or_0 t = (case t of None \<Rightarrow> 0 | Some x \<Rightarrow> x)"

text \<open>
  The two rules of the specification's scenarios, a rule without a modified date, and a
  rule whose name differs from Alpha's in case only.
\<close>

definition rule_alpha :: rule_doc where
  "rule_alpha = \<lparr> doc_rule_id = ''1'', doc_name = ''Alpha'', doc_description = ''First rule'',
                  doc_query = ''from:bank'', doc_action = ''sms'', doc_is_active = Some True,
                  doc_created_date = Some ''2024-01-10 08:00:00'',
                  doc_modified_date = Some ''2024-01-15 10:30:00'' \<rparr>"

definition rule_beta :: rule_doc where
  "rule_beta = \<lparr> doc_rule_id = ''2'', doc_name = ''Beta'', doc_description = ''Second rule'',
                 doc_query = ''label:old'', doc_action = ''archive'', doc_is_active = Some False,
                 doc_created_date = Some ''2024-02-01 09:00:00'',
                 doc_modified_date = Some ''2024-02-03 12:00:00.250000'' \<rparr>"

definition rule_undated :: rule_doc where
  "rule_undated = \<lparr> doc_rule_id = ''3'', doc_name = ''Gamma'', doc_description = ''New rule'',
                    doc_query = ''is:unread'', doc_action = ''webhook'', doc_is_active = None,
                    doc_created_date = None, doc_modified_date = None \<rparr>"

definition rule_alpha_lower :: rule_doc where
  "rule_alpha_lower = \<lparr> doc_rule_id = ''4'', doc_name = ''alpha'', doc_description = ''Another rule'',
                        doc_query = ''from:shop'', doc_action = ''sms'', doc_is_active = Some True,
                        doc_created_date = Some ''2024-01-10 08:00:00'',
                        doc_modified_date = Some ''2024-01-15 10:30:00'' \<rparr>"

definition action_types :: "string list" where
  "action_types = [''sms'', ''bank-sync'', ''archive'', ''email-forward'', ''webhook'', ''mark-read'']"

text \<open>The sidebar once it has fetched the two rules of the scenario.\<close>

definition sidebar_two :: sidebar where
  "sidebar_two = \<lparr> rulesData = [rule_alpha, rule_beta], sidebar_items = [rule_alpha, rule_beta],
                   searchRules = [] \<rparr>"

section \<open>Facts about the string functions and the filter loop\<close>

lemma startsWith_iff: "startsWith s t \<longleftrightarrow> (\<exists>q. s = t @ q)"
  by (induction s t rule: startsWith.induct) auto

lemma str_includes_iff: "str_includes s t \<longleftrightarrow> is_substring t s"
proof (induction s)
  case Nil
  then show ?case by (simp add: is_substring_def)
next
  case (Cons x s)
  show ?case
  proof
    assume "str_includes (x # s) t"
    then consider "startsWith (x # s) t" | "str_includes s t" by auto
    then show "is_substring t (x # s)"
    proof cases
      case 1
      then obtain q where "x # s = t @ q" using startsWith_iff by blast
      then have "x # s = [] @ t @ q" by simp
      then show ?thesis unfolding is_substring_def by blast
    next
      case 2
      then obtain p q where "s = p @ t @ q" using Cons.IH by (auto simp: is_substring_def)
      then have "x # s = (x # p) @ t @ q" by simp
      then show ?thesis unfolding is_substring_def by blast
    qed
  next
    assume "is_substring t (x # s)"
    then obtain p q where pq: "x # s = p @ t @ q" by (auto simp: is_substring_def)
    show "str_includes (x # s) t"
    proof (cases p)
      case Nil
      with pq have "startsWith (x # s) t" using startsWith_iff by auto
      then show ?thesis by simp
    next
      case (Cons y p')
      with pq have "s = p' @ t @ q" by simp
      then have "str_includes s t" using Cons.IH by (auto simp: is_substring_def)
      then show ?thesis by simp
    qed
  qed
qed

lemma filter_step_pair:
  "filter_step vis r (rs, n) =
     (rs[element r := (rs ! element r)\<lparr>display := (if vis r then [] else ''none'')\<rparr>],
      if vis r then n + 1 else n)"
  by (simp add: filter_step_def)

lemma fold_filter_step_snd:
  "snd (fold (filter_step vis) rules (rs, n)) = n + length (filter vis rules)"
  by (induction rules arbitrary: rs n) (simp_all add: filter_step_pair)

lemma fold_filter_step_length:
  "length (fst (fold (filter_step vis) rules (rs, n))) = length rs"
  by (induction rules arbitrary: rs n) (simp_all add: filter_step_pair)

lemma fold_filter_step_other:
  "a \<notin> element ` set rules \<Longrightarrow> fst (fold (filter_step vis) rules (rs, n)) ! a = rs ! a"
  by (induction rules arbitrary: rs n) (simp_all add: filter_step_pair)

lemma fold_filter_step_fields:
  "(fst (fold (filter_step vis) rules (rs, n)) ! a)\<lparr>display := d\<rparr> = (rs ! a)\<lparr>display := d\<rparr>"
proof (induction rules arbitrary: rs n)
  case Nil
  then show ?case by simp
next
  case (Cons r rules)
  have step: "(rs[element r := (rs ! element r)\<lparr>display := e\<rparr>] ! a)\<lparr>display := d\<rparr>
              = (rs ! a)\<lparr>display := d\<rparr>" for e
    by (cases "a = element r"; cases "a < length rs") (simp_all add: list_update_beyond)
  show ?case
    by (simp add: filter_step_pair Cons.IH step)
qed

lemma fold_filter_step_display:
  "distinct (map element rules) \<Longrightarrow> r \<in> set rules \<Longrightarrow> element r < length rs \<Longrightarrow>
   display (fst (fold (filter_step vis) rules (rs, n)) ! element r) = (if vis r then [] else ''none'')"
proof (induction rules arbitrary: rs n)
  case Nil
  then show ?case by simp
next
  case (Cons x rules)
  show ?case
  proof (cases "r \<in> set rules")
    case True
    then show ?thesis using Cons by (simp add: filter_step_pair)
  next
    case False
    with Cons.prems have rx: "r = x" by simp
    from Cons.prems have "element x \<notin> element ` set rules" by simp
    then show ?thesis
      using Cons.prems(3) rx by (simp add: filter_step_pair fold_filter_step_other)
  qed
qed

section \<open>The page keeps its shape under every operation\<close>

lemma rows_filterRules_fields:
  "(rows (filterRules p) ! a)\<lparr>display := d\<rparr> = (rows p ! a)\<lparr>display := d\<rparr>"
  by (simp add: filterRules_def Let_def fold_filter_step_fields)

lemma length_rows_filterRules: "length (rows (filterRules p)) = length (rows p)"
  by (simp add: filterRules_def Let_def fold_filter_step_length)

lemma row_field_cong:
  "r\<lparr>display := d\<rparr> = r'\<lparr>display := d\<rparr> \<Longrightarrow>
     data_name r = data_name r' \<and> data_action r = data_action r' \<and> data_created r = data_created r'
     \<and> data_modified r = data_modified r' \<and> data_description r = data_description r'
     \<and> data_active r = data_active r' \<and> query_preview r = query_preview r'
     \<and> table_secondary r = table_secondary r' \<and> link_text_dark r = link_text_dark r'
     \<and> link_text_muted r = link_text_muted r' \<and> pause_icon r = pause_icon r'
     \<and> checked r = checked r'"
  by (cases r; cases r') simp

lemma static_of_cong:
  "r\<lparr>display := d\<rparr> = r'\<lparr>display := d\<rparr> \<Longrightarrow> static_of doc r = static_of doc r'"
  by (drule row_field_cong) (simp add: static_of_def)

lemma entry_static_cong:
  "(rs ! element r)\<lparr>display := d\<rparr> = (rs' ! element r)\<lparr>display := d\<rparr> \<Longrightarrow>
     entry_static rs r = entry_static rs' r"
  by (drule row_field_cong) (simp add: entry_static_def)

lemma entry_static_snapshot: "entry_static rs (snapshot rs a)"
  by (simp add: entry_static_def snapshot_def or_default_def)

lemma element_snapshot: "map element (map (snapshot rs) as) = as"
  by (induction as) (simp_all add: snapshot_def)

lemma element_snapshot_comp: "map (element \<circ> snapshot rs) as = as"
  using element_snapshot [of rs as] by simp

lemma page_inv_filterRules: "page_inv docs p \<Longrightarrow> page_inv docs (filterRules p)"
proof -
  assume inv: "page_inv docs p"
  have f: "(rows (filterRules p) ! a)\<lparr>display := []\<rparr> = (rows p ! a)\<lparr>display := []\<rparr>" for a
    by (rule rows_filterRules_fields)
  have st: "static_of doc (rows (filterRules p) ! a) = static_of doc (rows p ! a)" for doc a
    using static_of_cong [OF f] .
  have es: "entry_static (rows (filterRules p)) r = entry_static (rows p) r" for r
    using entry_static_cong [OF f] .
  have ar: "allRules (filterRules p) = allRules p"
    using inv by (auto simp: filterRules_def Let_def page_inv_def element_snapshot)
  have tb: "tbody (filterRules p) = tbody p" "(rulesCount (filterRules p) = None) = (rulesCount p = None)"
    by (simp_all add: filterRules_def Let_def)
  show ?thesis
    using inv unfolding page_inv_def length_rows_filterRules st es ar tb by simp
qed

lemma set_insert_by: "set (insert_by cmp x ys) = insert x (set ys)"
  by (induction ys) auto

lemma length_insert_by: "length (insert_by cmp x ys) = Suc (length ys)"
  by (induction ys) auto

lemma distinct_insert_by: "distinct (insert_by cmp x ys) \<longleftrightarrow> x \<notin> set ys \<and> distinct ys"
  by (induction ys) (auto simp: set_insert_by)

lemma set_stable_sort: "set (stable_sort cmp xs) = set xs"
  by (induction xs) (simp_all add: stable_sort_def set_insert_by)

lemma length_stable_sort: "length (stable_sort cmp xs) = length xs"
  by (induction xs) (simp_all add: stable_sort_def length_insert_by)

lemma distinct_stable_sort: "distinct (stable_sort cmp xs) = distinct xs"
  by (induction xs) (simp_all add: stable_sort_def distinct_insert_by set_insert_by
        set_stable_sort [unfolded stable_sort_def])

lemma perm_of_set: "perm_of ys xs \<Longrightarrow> set ys = set xs"
proof -
  assume p: "perm_of ys xs"
  have "x \<in> set ys \<longleftrightarrow> x \<in> set xs" for x
  proof (cases "x \<in> set xs \<union> set ys")
    case True
    with p have "count_list ys x = count_list xs x" by (simp add: perm_of_def)
    then show ?thesis by (metis count_list_0_iff)
  next
    case False
    then show ?thesis by simp
  qed
  then show ?thesis by blast
qed

lemma distinct_count_list: "distinct xs \<longleftrightarrow> (\<forall>x\<in>set xs. count_list xs x = 1)"
proof (induction xs)
  case Nil
  then show ?case by simp
next
  case (Cons a xs)
  show ?case
  proof (cases "a \<in> set xs")
    case True
    then have "count_list xs a \<noteq> 0" by (simp add: count_list_0_iff)
    with True show ?thesis by auto
  next
    case False
    then have "count_list xs a = 0" by simp
    moreover have "count_list (a # xs) x = count_list xs x" if "x \<in> set xs" for x
      using that False by auto
    ultimately show ?thesis using Cons False by auto
  qed
qed

lemma perm_of_distinct: "perm_of ys xs \<Longrightarrow> distinct xs \<Longrightarrow> distinct ys"
proof -
  assume p: "perm_of ys xs" and d: "distinct xs"
  have "count_list ys a = 1" if "a \<in> set ys" for a
  proof -
    from that p have "count_list ys a = count_list xs a" by (simp add: perm_of_def)
    moreover from that p have "a \<in> set xs" using perm_of_set by blast
    ultimately show ?thesis using d by (simp add: distinct_count_list)
  qed
  then show ?thesis by (simp add: distinct_count_list)
qed

lemma set_array_sort: "set (array_sort impl cmp xs) = set xs"
  by (simp add: array_sort_def set_stable_sort perm_of_set)

lemma distinct_array_sort: "distinct xs \<Longrightarrow> distinct (array_sort impl cmp xs)"
  by (simp add: array_sort_def distinct_stable_sort perm_of_distinct)

lemma array_sort_consistent:
  "consistent_on cmp (set xs) \<Longrightarrow> array_sort impl cmp xs = stable_sort cmp xs"
  by (simp add: array_sort_def)

lemma page_inv_sortRules: "page_inv docs p \<Longrightarrow> page_inv docs (sortRules impl lc Date sortBy p)"
  by (simp add: page_inv_def sortRules_def Let_def element_snapshot_comp set_array_sort
        distinct_array_sort entry_static_snapshot)

lemma page_inv_rows_update:
  assumes "page_inv docs p"
    and "data_name r' = data_name (rows p ! cb)" "data_action r' = data_action (rows p ! cb)"
    and "data_description r' = data_description (rows p ! cb)"
    and "query_preview r' = query_preview (rows p ! cb)"
    and "data_created r' = data_created (rows p ! cb)"
    and "data_modified r' = data_modified (rows p ! cb)"
  shows "page_inv docs (p\<lparr>rows := (rows p)[cb := r'], alerts := al\<rparr>)"
proof -
  have es: "entry_static ((rows p)[cb := r']) e = entry_static (rows p) e" for e
    using assms(2-5)
    by (cases "cb < length (rows p)"; cases "element e = cb")
       (simp_all add: entry_static_def list_update_beyond)
  have st: "static_of doc ((rows p)[cb := r'] ! a) = static_of doc (rows p ! a)" for doc a
    using assms(2-7)
    by (cases "cb < length (rows p)"; cases "a = cb")
       (simp_all add: static_of_def list_update_beyond)
  show ?thesis
    using assms(1) by (simp add: page_inv_def es st)
qed

lemma page_inv_click: "page_inv docs p \<Longrightarrow> page_inv docs (click_status cb p)"
  using page_inv_rows_update [of docs p "(rows p ! cb)\<lparr>checked := \<not> checked (rows p ! cb)\<rparr>" cb "alerts p"]
  by (simp add: click_status_def)

lemma page_inv_toggleRuleStatus:
  assumes "page_inv docs p"
  shows "page_inv docs (toggleRuleStatus ruleId cb resp p)"
proof (cases resp)
  case (Throws msg)
  then show ?thesis
    using page_inv_rows_update [OF assms, of "(rows p ! cb)\<lparr>checked := \<not> checked (rows p ! cb)\<rparr>" cb]
    by (simp add: toggleRuleStatus_def)
next
  case NotOk
  then show ?thesis
    using page_inv_rows_update [OF assms, of "(rows p ! cb)\<lparr>checked := \<not> checked (rows p ! cb)\<rparr>" cb]
    by (simp add: toggleRuleStatus_def)
next
  case (OkData v)
  then show ?thesis
    using page_inv_rows_update [OF assms,
        of "(style_row v (rows p ! cb))\<lparr>data_active := Some (js_string_bool v)\<rparr>" cb "alerts p"]
    by (simp add: toggleRuleStatus_def style_row_def)
qed

lemma page_inv_toggleStatus:
  "page_inv docs p \<Longrightarrow> page_inv docs (toggleStatus ruleId cb resp p)"
  by (simp add: toggleStatus_def page_inv_click page_inv_toggleRuleStatus)

lemma page_inv_controls:
  "page_inv docs p \<Longrightarrow>
   page_inv docs (p\<lparr>searchInput := s\<rparr>) \<and> page_inv docs (p\<lparr>filterAll := b\<rparr>)
   \<and> page_inv docs (p\<lparr>action_boxes := bs\<rparr>)
   \<and> page_inv docs (p\<lparr>filterActive := x, filterInactive := y\<rparr>)"
  by (simp add: page_inv_def)

lemma sidebar_filterRules_no_argument: "sidebar_filterRules None sb = Inl TypeError"
  by (simp add: sidebar_filterRules_def)

lemma call_filterRules_unchanged: "call_filterRules p = p"
  by (simp add: call_filterRules_def sidebar_filterRules_no_argument)

lemma on_search_input_eq: "on_search_input s p = p\<lparr>searchInput := s\<rparr>"
  by (simp add: on_search_input_def call_filterRules_unchanged)

lemma on_status_filter_change_eq:
  "on_status_filter_change x y p = p\<lparr>filterActive := x, filterInactive := y\<rparr>"
  by (simp add: on_status_filter_change_def call_filterRules_unchanged)

lemma on_filterAll_change_eq:
  "on_filterAll_change b p
     = p\<lparr>filterAll := b, action_boxes := map (\<lambda>(k, _). (k, b)) (action_boxes p)\<rparr>"
  by (simp add: on_filterAll_change_def call_filterRules_unchanged Let_def)

lemma on_action_filter_change_eq:
  "on_action_filter_change k b p
     = p\<lparr>action_boxes := map (\<lambda>(k', c). (k', if k' = k then b else c)) (action_boxes p),
          filterAll := list_all snd (map (\<lambda>(k', c). (k', if k' = k then b else c)) (action_boxes p))\<rparr>"
  by (simp add: on_action_filter_change_def call_filterRules_unchanged Let_def)

lemma page_inv_events:
  assumes "page_inv docs p"
  shows "page_inv docs (on_search_input s p)" "page_inv docs (on_filterAll_change b p)"
    "page_inv docs (on_status_filter_change x y p)" "page_inv docs (on_action_filter_change k b p)"
  using assms
  by (simp_all add: on_search_input_eq on_filterAll_change_eq on_status_filter_change_eq
        on_action_filter_change_eq page_inv_def)

lemma page_inv_apply_event:
  "page_inv docs p \<Longrightarrow> page_inv docs (apply_event impl lc Date ev p)"
  by (cases ev)
     (simp_all add: apply_event_def page_inv_events page_inv_sortRules page_inv_toggleStatus)

lemma page_inv_fold:
  "page_inv docs p \<Longrightarrow> page_inv docs (fold (apply_event impl lc Date) evs p)"
  by (induction evs arbitrary: p) (simp_all add: page_inv_apply_event)

lemma page_inv_loadRules: "page_inv docs (loadRules ats docs)"
  by (auto simp: loadRules_def DOMContentLoaded_def call_filterRules_unchanged page_inv_def
        render_page_def element_snapshot_comp entry_static_snapshot static_of_def render_row_def)

lemma page_inv_run: "page_inv docs (run impl lc Date evs (loadRules ats docs))"
  unfolding run_def by (rule page_inv_fold [OF page_inv_loadRules])

lemma unfiltered_rows_update:
  assumes "unfiltered docs p" "display r' = display (rows p ! cb)"
  shows "unfiltered docs (p\<lparr>rows := (rows p)[cb := r'], alerts := al\<rparr>)"
proof -
  have "display ((rows p)[cb := r'] ! a) = display (rows p ! a)" for a
    using assms(2) by (cases "cb < length (rows p)"; cases "a = cb") (simp_all add: list_update_beyond)
  then show ?thesis using assms(1) by (simp add: unfiltered_def)
qed

lemma unfiltered_click: "unfiltered docs p \<Longrightarrow> unfiltered docs (click_status cb p)"
  using unfiltered_rows_update [of docs p "(rows p ! cb)\<lparr>checked := \<not> checked (rows p ! cb)\<rparr>" cb "alerts p"]
  by (simp add: click_status_def)

lemma unfiltered_toggleRuleStatus:
  assumes "unfiltered docs p"
  shows "unfiltered docs (toggleRuleStatus ruleId cb resp p)"
proof (cases resp)
  case (Throws msg)
  then show ?thesis
    using unfiltered_rows_update [OF assms, of "(rows p ! cb)\<lparr>checked := \<not> checked (rows p ! cb)\<rparr>" cb]
    by (simp add: toggleRuleStatus_def)
next
  case NotOk
  then show ?thesis
    using unfiltered_rows_update [OF assms, of "(rows p ! cb)\<lparr>checked := \<not> checked (rows p ! cb)\<rparr>" cb]
    by (simp add: toggleRuleStatus_def)
next
  case (OkData v)
  then show ?thesis
    using unfiltered_rows_update [OF assms,
        of "(style_row v (rows p ! cb))\<lparr>data_active := Some (js_string_bool v)\<rparr>" cb "alerts p"]
    by (simp add: toggleRuleStatus_def style_row_def)
qed

lemma unfiltered_apply_event:
  "unfiltered docs p \<Longrightarrow> unfiltered docs (apply_event impl lc Date ev p)"
proof (cases ev)
  case (Sort sortBy)
  assume "unfiltered docs p"
  with Sort show ?thesis by (simp add: apply_event_def unfiltered_def sortRules_def Let_def)
next
  case (Toggle cb resp)
  assume "unfiltered docs p"
  with Toggle show ?thesis
    by (simp add: apply_event_def toggleStatus_def unfiltered_click unfiltered_toggleRuleStatus)
qed (simp_all add: apply_event_def on_search_input_eq on_filterAll_change_eq
       on_status_filter_change_eq on_action_filter_change_eq unfiltered_def)

lemma unfiltered_fold:
  "unfiltered docs p \<Longrightarrow> unfiltered docs (fold (apply_event impl lc Date) evs p)"
  by (induction evs arbitrary: p) (simp_all add: unfiltered_apply_event)

lemma unfiltered_loadRules: "unfiltered docs (loadRules ats docs)"
  by (simp add: loadRules_def DOMContentLoaded_def call_filterRules_unchanged unfiltered_def
        render_page_def render_row_def)

lemma unfiltered_run: "unfiltered docs (run impl lc Date evs (loadRules ats docs))"
  unfolding run_def by (rule unfiltered_fold [OF unfiltered_loadRules])

section \<open>What the dashboard script's filterRules computes\<close>

lemma page_invD:
  assumes "page_inv docs p"
  shows "length (rows p) = length docs" "distinct (tbody p)" "set (tbody p) = {..<length docs}"
    "map element (allRules p) = tbody p" "(rulesCount p = None) = (docs = [])"
  using assms unfolding page_inv_def by blast+

lemma rules_of_page_inv:
  assumes "page_inv docs p"
  shows "(if allRules p = [] then map (snapshot (rows p)) (tbody p) else allRules p) = allRules p"
proof (cases "allRules p = []")
  case True
  with page_invD(4) [OF assms] have "tbody p = []" by simp
  with True show ?thesis by simp
next
  case False
  then show ?thesis by simp
qed

lemma filterRules_controls:
  "searchInput (filterRules p) = searchInput p" "filterAll (filterRules p) = filterAll p"
  "action_boxes (filterRules p) = action_boxes p" "filterActive (filterRules p) = filterActive p"
  "filterInactive (filterRules p) = filterInactive p" "tbody (filterRules p) = tbody p"
  "alerts (filterRules p) = alerts p"
  by (simp_all add: filterRules_def Let_def)

lemma allRules_filterRules: "page_inv docs p \<Longrightarrow> allRules (filterRules p) = allRules p"
  by (simp add: filterRules_def Let_def rules_of_page_inv)

lemma rulesCount_filterRules:
  assumes inv: "page_inv docs p"
  shows "rulesCount (filterRules p)
     = (if docs = [] then None
        else Some (length (filter (rule_matches (trim (toLowerCase (searchInput p))) (filterAll p)
                    (actionFilters p) (statusFilters p)) (allRules p))))"
proof (cases "rulesCount p")
  case None
  with page_invD(5) [OF inv] have "docs = []" by simp
  with None show ?thesis by (simp add: filterRules_def Let_def)
next
  case (Some n)
  with page_invD(5) [OF inv] have "docs \<noteq> []" by auto
  with Some show ?thesis
    by (simp add: filterRules_def Let_def rules_of_page_inv [OF inv] fold_filter_step_snd)
qed

lemma visibleCount_eq:
  "page_inv docs p \<Longrightarrow>
   visibleCount p = length (filter (rule_matches (trim (toLowerCase (searchInput p))) (filterAll p)
                    (actionFilters p) (statusFilters p)) (allRules p))"
  by (simp add: visibleCount_def Let_def rules_of_page_inv fold_filter_step_snd)

lemma visible_filterRules:
  assumes inv: "page_inv docs p" and r: "r \<in> set (allRules p)"
  shows "visible (filterRules p) (element r)
         \<longleftrightarrow> rule_matches (trim (toLowerCase (searchInput p))) (filterAll p)
                    (actionFilters p) (statusFilters p) r"
proof -
  have d: "distinct (map element (allRules p))"
    using page_invD(2,4) [OF inv] by simp
  have "element r \<in> set (map element (allRules p))" using r by simp
  then have "element r \<in> {..<length docs}" using page_invD(3,4) [OF inv] by simp
  then have lt: "element r < length (rows p)" using page_invD(1) [OF inv] by simp
  have "display (fst (fold (filter_step (rule_matches (trim (toLowerCase (searchInput p)))
           (filterAll p) (actionFilters p) (statusFilters p))) (allRules p) (rows p, 0)) ! element r)
        = (if rule_matches (trim (toLowerCase (searchInput p))) (filterAll p)
                    (actionFilters p) (statusFilters p) r then [] else ''none'')"
    by (rule fold_filter_step_display [OF d r lt])
  then show ?thesis
    by (simp add: visible_def filterRules_def Let_def rules_of_page_inv [OF inv])
qed

lemma entry_at:
  assumes inv: "page_inv docs p" and a: "a < length docs"
  shows "\<exists>r\<in>set (allRules p). element r = a"
proof -
  from a have "a \<in> set (map element (allRules p))" using page_invD(3,4) [OF inv] by simp
  then show ?thesis by auto
qed

lemma visible_rows_filterRules:
  assumes inv: "page_inv docs p"
  shows "visible_rows (filterRules p)
         = map element (filter (rule_matches (trim (toLowerCase (searchInput p))) (filterAll p)
                    (actionFilters p) (statusFilters p)) (allRules p))"
proof -
  have tb: "tbody p = map element (allRules p)" using page_invD(4) [OF inv] by simp
  have "filter (visible (filterRules p)) (map element rs)
        = map element (filter (rule_matches (trim (toLowerCase (searchInput p))) (filterAll p)
                    (actionFilters p) (statusFilters p)) rs)"
    if "set rs \<subseteq> set (allRules p)" for rs
    using that
  proof (induction rs)
    case Nil
    then show ?case by simp
  next
    case (Cons r rs)
    then have "r \<in> set (allRules p)" by simp
    from visible_filterRules [OF inv this] Cons show ?case by simp
  qed
  then show ?thesis
    by (simp add: visible_rows_def filterRules_controls tb)
qed

lemma filter_none_status:
  "filter (rule_matches t fa afs []) rs = []"
  by (induction rs) (simp_all add: rule_matches_def matchesStatus_def)

lemma filter_none_action:
  "filter (rule_matches t False [] sfs) rs = []"
  by (induction rs) (simp_all add: rule_matches_def matchesAction_def)

lemma filter_all_pass:
  "filter (rule_matches [] True afs [''active'', ''inactive'']) rs = rs"
  by (induction rs) (simp_all add: rule_matches_def matchesAction_def matchesStatus_def matchesSearch_def)

lemma page_inv_static:
  assumes "page_inv docs p" "a < length docs"
  shows "static_of (docs ! a) (rows p ! a)"
  using assms unfolding page_inv_def by blast

lemma page_inv_entry:
  assumes "page_inv docs p" "r \<in> set (allRules p)"
  shows "entry_static (rows p) r"
  using assms unfolding page_inv_def by blast

lemma length_tbody:
  assumes "page_inv docs p"
  shows "length (tbody p) = length docs"
proof -
  have "length (tbody p) = card (set (tbody p))"
    using page_invD(2) [OF assms] by (simp add: distinct_card)
  then show ?thesis using page_invD(3) [OF assms] by simp
qed

lemma actionFilters_all_off: "actionFilters (p\<lparr>action_boxes := map (\<lambda>(k, _). (k, False)) bs\<rparr>) = []"
  by (induction bs) (auto simp: actionFilters_def)

lemma is_substring_Nil: "is_substring [] s"
  unfolding is_substring_def by (rule exI [of _ "[]"], rule exI [of _ s]) simp

lemma row_after_ok:
  "cb < length (rows p) \<Longrightarrow>
   rows (toggleStatus ruleId cb (OkData v) p) ! cb
   = (style_row v ((rows p ! cb)\<lparr>checked := \<not> checked (rows p ! cb)\<rparr>))
       \<lparr>data_active := Some (js_string_bool v)\<rparr>"
  by (simp add: toggleStatus_def toggleRuleStatus_def click_status_def)

section \<open>Facts about the sort\<close>

lemma consistentD:
  assumes "consistent_comparator cmp"
  shows "cmp a a = 0" "cmp a b < 0 \<longleftrightarrow> 0 < cmp b a"
    "cmp a b \<le> 0 \<Longrightarrow> cmp b c \<le> 0 \<Longrightarrow> cmp a c \<le> 0"
  using assms unfolding consistent_comparator_def by blast+

lemma consistent_sym0:
  assumes "consistent_comparator cmp" "cmp a b = 0"
  shows "cmp b a = 0"
  using consistentD(2) [OF assms(1), of a b] consistentD(2) [OF assms(1), of b a] assms(2) by linarith

lemma consistent_total:
  assumes "consistent_comparator cmp" "\<not> cmp a b \<le> 0"
  shows "cmp b a \<le> 0"
  using consistentD(2) [OF assms(1), of b a] assms(2) by linarith

lemma consistent_comp:
  "consistent_comparator cmp \<Longrightarrow> consistent_comparator (\<lambda>a b. cmp (f a) (f b))"
  unfolding consistent_comparator_def by blast

lemma sorted_insert_by:
  assumes c: "consistent_comparator cmp"
  shows "sorted_wrt (\<lambda>a b. cmp a b \<le> 0) ys \<Longrightarrow> sorted_wrt (\<lambda>a b. cmp a b \<le> 0) (insert_by cmp x ys)"
proof (induction ys)
  case Nil
  then show ?case by simp
next
  case (Cons y ys)
  show ?case
  proof (cases "cmp x y \<le> 0")
    case True
    have "cmp x z \<le> 0" if "z \<in> set ys" for z
      using consistentD(3) [OF c True] Cons.prems that by simp
    with True Cons.prems show ?thesis by simp
  next
    case False
    have yx: "cmp y x \<le> 0" by (rule consistent_total [OF c False])
    from Cons have "sorted_wrt (\<lambda>a b. cmp a b \<le> 0) (insert_by cmp x ys)" by simp
    with False yx Cons.prems show ?thesis by (auto simp: set_insert_by)
  qed
qed

lemma sorted_stable_sort:
  "consistent_comparator cmp \<Longrightarrow> sorted_wrt (\<lambda>a b. cmp a b \<le> 0) (stable_sort cmp xs)"
  by (induction xs) (simp_all add: stable_sort_def sorted_insert_by)

lemma stable_sort_sorted_id:
  "sorted_wrt (\<lambda>a b. cmp a b \<le> 0) xs \<Longrightarrow> stable_sort cmp xs = xs"
proof (induction xs)
  case Nil
  then show ?case by (simp add: stable_sort_def)
next
  case (Cons x xs)
  then have "stable_sort cmp xs = xs" by simp
  then have "stable_sort cmp (x # xs) = insert_by cmp x xs" by (simp add: stable_sort_def)
  also have "\<dots> = x # xs" using Cons.prems by (cases xs) simp_all
  finally show ?case .
qed

lemma stable_sort_idem:
  "consistent_comparator cmp \<Longrightarrow> stable_sort cmp (stable_sort cmp xs) = stable_sort cmp xs"
  by (rule stable_sort_sorted_id [OF sorted_stable_sort])

lemma insert_by_cong:
  "(\<And>y. y \<in> set ys \<Longrightarrow> cmp x y = cmp' x y) \<Longrightarrow> insert_by cmp x ys = insert_by cmp' x ys"
  by (induction ys) simp_all

lemma stable_sort_cong:
  "(\<And>x y. x \<in> set xs \<Longrightarrow> y \<in> set xs \<Longrightarrow> cmp x y = cmp' x y) \<Longrightarrow>
   stable_sort cmp xs = stable_sort cmp' xs"
proof (induction xs)
  case Nil
  then show ?case by (simp add: stable_sort_def)
next
  case (Cons x xs)
  then have ih: "stable_sort cmp xs = stable_sort cmp' xs" by simp
  have "insert_by cmp x (stable_sort cmp' xs) = insert_by cmp' x (stable_sort cmp' xs)"
    by (rule insert_by_cong) (simp add: set_stable_sort Cons.prems)
  with ih show ?case by (simp add: stable_sort_def)
qed

lemma consistent_length_compare: "consistent_comparator length_compare"
  by (auto simp: consistent_comparator_def length_compare_def)

lemma consistent_comparator_on: "consistent_comparator cmp \<Longrightarrow> consistent_on cmp A"
  unfolding consistent_comparator_def consistent_on_def by blast

lemma consistent_on_cong:
  assumes c: "consistent_on cmp' A" and eq: "\<And>x y. x \<in> A \<Longrightarrow> y \<in> A \<Longrightarrow> cmp x y = cmp' x y"
  shows "consistent_on cmp A"
proof -
  from c have c1: "\<And>a. a \<in> A \<Longrightarrow> cmp' a a = 0"
    and c2: "\<And>a b. a \<in> A \<Longrightarrow> b \<in> A \<Longrightarrow> (cmp' a b < 0) = (0 < cmp' b a)"
    and c3: "\<And>a b d. a \<in> A \<Longrightarrow> b \<in> A \<Longrightarrow> d \<in> A \<Longrightarrow> cmp' a b \<le> 0 \<Longrightarrow> cmp' b d \<le> 0
               \<Longrightarrow> cmp' a d \<le> 0"
    unfolding consistent_on_def by blast+
  show ?thesis
    unfolding consistent_on_def
  proof (intro conjI ballI impI)
    fix a assume "a \<in> A"
    then show "cmp a a = 0" using eq [of a a] c1 [of a] by simp
  next
    fix a b assume "a \<in> A" "b \<in> A"
    then show "(cmp a b < 0) = (0 < cmp b a)" using eq [of a b] eq [of b a] c2 [of a b] by simp
  next
    fix a b d assume "a \<in> A" "b \<in> A" "d \<in> A" and h: "cmp a b \<le> 0 \<and> cmp b d \<le> 0"
    then show "cmp a d \<le> 0"
      using eq [of a b] eq [of b d] eq [of a d] c3 [of a b d] by simp
  qed
qed

lemma sortRules_name_tbody:
  "tbody (sortRules impl lc Date ''name'' p)
   = array_sort impl (\<lambda>a b. lc (data_name (rows p ! a)) (data_name (rows p ! b))) (tbody p)"
  by (simp add: sortRules_def compareRows_def Let_def)

lemma sortRules_rows: "rows (sortRules impl lc Date sortBy p) = rows p"
  by (simp add: sortRules_def Let_def)

lemma sortRules_twice:
  assumes "array_sort impl (\<lambda>a b. compareRows lc Date sortBy (rows p ! a) (rows p ! b))
             (array_sort impl (\<lambda>a b. compareRows lc Date sortBy (rows p ! a) (rows p ! b)) (tbody p))
           = array_sort impl (\<lambda>a b. compareRows lc Date sortBy (rows p ! a) (rows p ! b)) (tbody p)"
  shows "sortRules impl lc Date sortBy (sortRules impl lc Date sortBy p) = sortRules impl lc Date sortBy p"
  using assms by (simp add: sortRules_def Let_def)

lemma sortRules_modified_tbody:
  "tbody (sortRules impl lc Date ''modified'' p)
   = array_sort impl (\<lambda>a b. date_minus (modified_time Date p b) (modified_time Date p a)) (tbody p)"
  by (simp add: sortRules_def compareRows_def Let_def modified_time_def)

lemma consistent_time: "consistent_comparator (\<lambda>a b. time_or_0 (f b) - time_or_0 (f a))"
  by (auto simp: consistent_comparator_def)

lemma modified_consistent_on:
  assumes "\<forall>a\<in>A. modified_time Date p a \<noteq> None"
  shows "consistent_on (\<lambda>a b. date_minus (modified_time Date p b) (modified_time Date p a)) A"
proof (rule consistent_on_cong)
  show "consistent_on (\<lambda>a b. time_or_0 (modified_time Date p b) - time_or_0 (modified_time Date p a)) A"
    by (rule consistent_comparator_on [OF consistent_time])
next
  fix x y assume "x \<in> A" "y \<in> A"
  with assms have "modified_time Date p x \<noteq> None" "modified_time Date p y \<noteq> None"
    by blast+
  then obtain u v where "modified_time Date p x = Some u" "modified_time Date p y = Some v"
    by blast
  then show "date_minus (modified_time Date p y) (modified_time Date p x)
             = time_or_0 (modified_time Date p y) - time_or_0 (modified_time Date p x)"
    by (simp add: date_minus_def time_or_0_def)
qed

lemma date_minus_self: "date_minus t t = 0"
  by (cases t) (simp_all add: date_minus_def)

lemma date_minus_None: "date_minus None t = 0" "date_minus t None = 0"
  by (cases t; simp add: date_minus_def)+

lemma undated_pair_consistent_on:
  assumes "modified_time Date p a = None \<or> modified_time Date p b = None"
  shows "consistent_on (\<lambda>x y. date_minus (modified_time Date p y) (modified_time Date p x))
           (set [a, b])"
  using assms by (auto simp: consistent_on_def date_minus_self date_minus_None)

section \<open>Values on the specification's scenario\<close>

lemma Date_parse_alpha: "Date_parse ''2024-01-15 10:30:00'' = Some 1705314600000"
  by code_simp

lemma Date_parse_beta: "Date_parse ''2024-02-03 12:00:00.250000'' = Some 1706961600250"
  by code_simp

lemma Date_parse_None: "Date_parse ''None'' = None"
  by code_simp

lemma modified_alpha_beta:
  "tbody (loadRules action_types [rule_alpha, rule_beta]) = [0, 1]"
  "data_modified (rows (loadRules action_types [rule_alpha, rule_beta]) ! 0) = ''2024-01-15 10:30:00''"
  "data_modified (rows (loadRules action_types [rule_alpha, rule_beta]) ! 1) = ''2024-02-03 12:00:00.250000''"
  by code_simp+

lemma modified_undated_alpha:
  "tbody (loadRules action_types [rule_undated, rule_alpha]) = [0, 1]"
  "data_modified (rows (loadRules action_types [rule_undated, rule_alpha]) ! 0) = ''None''"
  "data_modified (rows (loadRules action_types [rule_undated, rule_alpha]) ! 1) = ''2024-01-15 10:30:00''"
  by code_simp+

lemma modified_alpha_beta_Suc:
  "data_modified (rows (loadRules action_types [rule_alpha, rule_beta]) ! Suc 0) = ''2024-02-03 12:00:00.250000''"
  using modified_alpha_beta(3) by simp

lemma modified_undated_alpha_Suc:
  "data_modified (rows (loadRules action_types [rule_undated, rule_alpha]) ! Suc 0) = ''2024-01-15 10:30:00''"
  using modified_undated_alpha(3) by simp

lemma valid_alpha_beta:
  "\<forall>a\<in>set (tbody (loadRules action_types [rule_alpha, rule_beta])).
       modified_time Date_parse (loadRules action_types [rule_alpha, rule_beta]) a \<noteq> None"
  by (simp add: modified_alpha_beta modified_alpha_beta_Suc modified_time_def Date_parse_alpha
        Date_parse_beta)

lemma sorted_alpha_beta:
  "tbody (sortRules reverse_order length_compare Date_parse ''modified''
            (loadRules action_types [rule_alpha, rule_beta])) = [1, 0]"
  by (simp add: sortRules_modified_tbody array_sort_consistent [OF modified_consistent_on [OF valid_alpha_beta]])
     (simp add: stable_sort_def modified_time_def modified_alpha_beta modified_alpha_beta_Suc
        Date_parse_alpha Date_parse_beta date_minus_def)

lemma undated_first:
  "modified_time Date_parse (loadRules action_types [rule_undated, rule_alpha]) 0 = None"
  by (simp add: modified_time_def modified_undated_alpha Date_parse_None)

section \<open>Facts about the toggle\<close>

lemma click_then_revert:
  "(rows (click_status cb p))[cb := (rows (click_status cb p) ! cb)
       \<lparr>checked := \<not> checked (rows (click_status cb p) ! cb)\<rparr>] = rows p"
  by (cases "cb < length (rows p)") (simp_all add: click_status_def list_update_beyond)

lemma toggleStatus_NotOk:
  "toggleStatus ruleId cb NotOk p = p\<lparr>alerts := alerts p @ [''Failed to toggle rule status'']\<rparr>"
proof -
  have other: "alerts (click_status cb p) = alerts p" "click_status cb p\<lparr>rows := rows p\<rparr> = p"
    by (simp_all add: click_status_def)
  show ?thesis
    unfolding toggleStatus_def toggleRuleStatus_def Let_def
    by (simp add: click_then_revert other)
qed

lemma toggleStatus_Throws:
  "toggleStatus ruleId cb (Throws msg) p
     = p\<lparr>alerts := alerts p @ [''Error toggling rule status: '' @ msg]\<rparr>"
proof -
  have other: "alerts (click_status cb p) = alerts p" "click_status cb p\<lparr>rows := rows p\<rparr> = p"
    by (simp_all add: click_status_def)
  show ?thesis
    unfolding toggleStatus_def toggleRuleStatus_def Let_def
    by (simp add: click_then_revert other)
qed

section \<open>The loaded page is not filtered\<close>

text \<open>
  On the page as assembled no control hides a row: every row the table holds is visible
  after any sequence of operations.
\<close>

lemma visible_rows_unfiltered:
  assumes inv: "page_inv docs p" and u: "unfiltered docs p"
  shows "visible_rows p = tbody p"
proof -
  have "visible p a" if "a \<in> set (tbody p)" for a
  proof -
    from that have "a < length docs" using page_invD(3) [OF inv] by simp
    with u show ?thesis by (simp add: unfiltered_def visible_def)
  qed
  then show ?thesis by (simp add: visible_rows_def)
qed

lemma unfiltered_events:
  assumes "unfiltered docs p"
  shows "unfiltered docs (on_search_input s p)" "unfiltered docs (on_filterAll_change b p)"
    "unfiltered docs (on_status_filter_change x y p)" "unfiltered docs (on_action_filter_change k b p)"
  using assms
  by (simp_all add: on_search_input_eq on_filterAll_change_eq on_status_filter_change_eq
        on_action_filter_change_eq unfiltered_def)

section \<open>The status filter of the dashboard script\<close>

lemma page_inv_status_only: "page_inv docs p \<Longrightarrow> page_inv docs (status_only act inact p)"
  by (simp add: page_inv_def status_only_def)

lemma trim_blank: "trim (toLowerCase []) = []"
  by (simp add: trim_def toLowerCase_def)

lemma status_only_visible:
  assumes inv: "page_inv docs p" and r: "r \<in> set (allRules p)"
  shows "visible (filterRules (status_only act inact p)) (element r)
         \<longleftrightarrow> (act \<and> active r = ''True'') \<or> (inact \<and> active r \<noteq> ''True'')"
proof -
  have r': "r \<in> set (allRules (status_only act inact p))"
    using r by (simp add: status_only_def)
  have "visible (filterRules (status_only act inact p)) (element r)
        \<longleftrightarrow> rule_matches [] True (actionFilters (status_only act inact p))
              (statusFilters (status_only act inact p)) r"
    using visible_filterRules [OF page_inv_status_only [OF inv] r']
    by (simp add: status_only_def trim_blank)
  also have "\<dots> \<longleftrightarrow> (act \<and> active r = ''True'') \<or> (inact \<and> active r \<noteq> ''True'')"
    by (auto simp: rule_matches_def matchesSearch_def matchesAction_def matchesStatus_def
          ruleIsActive_def statusFilters_def status_only_def)
  finally show ?thesis .
qed

lemma status_only_count:
  assumes inv: "page_inv docs p"
  shows "rulesCount (filterRules (status_only True False p))
         = (if docs = [] then None
            else Some (length (filter (\<lambda>r. active r = ''True'') (allRules p))))"
proof -
  have "rule_matches [] True afs [''active''] = (\<lambda>r. active r = ''True'')" for afs
    by (rule ext)
      (simp add: rule_matches_def matchesSearch_def matchesAction_def matchesStatus_def
        ruleIsActive_def)
  then show ?thesis
    using rulesCount_filterRules [OF page_inv_status_only [OF inv, of True False]]
    by (simp add: status_only_def trim_blank statusFilters_def)
qed

lemma or_default_True:
  "or_default x ''True'' = ''True'' \<longleftrightarrow> x \<in> {None, Some [], Some ''True''}"
  by (cases x) (auto simp: or_default_def)

lemma visible_after_sort:
  assumes inv: "page_inv docs p" and a: "a < length docs"
  shows "visible (filterRules (status_only act inact (sortRules impl lc Date sortBy p))) a
         \<longleftrightarrow> (act \<and> data_active (rows p ! a) \<in> {None, Some [], Some ''True''})
             \<or> (inact \<and> data_active (rows p ! a) \<notin> {None, Some [], Some ''True''})"
proof -
  define S where "S = sortRules impl lc Date sortBy p"
  have invS: "page_inv docs S" unfolding S_def by (rule page_inv_sortRules [OF inv])
  have all: "allRules S = map (snapshot (rows p)) (tbody S)"
    by (simp add: S_def sortRules_def Let_def)
  from a have "a \<in> set (tbody S)" using page_invD(3) [OF invS] by simp
  then have r: "snapshot (rows p) a \<in> set (allRules S)" by (simp add: all)
  have e: "element (snapshot (rows p) a) = a" by (simp add: snapshot_def)
  have f: "active (snapshot (rows p) a) = or_default (data_active (rows p ! a)) ''True''"
    by (simp add: snapshot_def)
  from status_only_visible [OF invS r, of act inact]
  show ?thesis
    unfolding S_def [symmetric] e f or_default_True .
qed

lemma allRules_toggleStatus: "allRules (toggleStatus ruleId cb resp p) = allRules p"
  by (cases resp) (simp_all add: toggleStatus_def toggleRuleStatus_def click_status_def)

lemma allRules_loadRules:
  "allRules (loadRules ats docs) = map (snapshot (map render_row docs)) [0..<length docs]"
  by (simp add: loadRules_def DOMContentLoaded_def call_filterRules_unchanged render_page_def)

lemma visible_loaded:
  assumes a: "a < length docs"
  shows "visible (filterRules (status_only act inact (loadRules ats docs))) a
         \<longleftrightarrow> (act \<and> doc_is_active (docs ! a) \<noteq> Some False)
             \<or> (inact \<and> doc_is_active (docs ! a) = Some False)"
proof -
  have inv: "page_inv docs (loadRules ats docs)" by (rule page_inv_loadRules)
  from a have r: "snapshot (map render_row docs) a \<in> set (allRules (loadRules ats docs))"
    by (simp add: allRules_loadRules)
  have e: "element (snapshot (map render_row docs) a) = a" by (simp add: snapshot_def)
  have f: "active (snapshot (map render_row docs) a) = ''True''
           \<longleftrightarrow> doc_is_active (docs ! a) \<noteq> Some False"
    using a
    by (auto simp: snapshot_def render_row_def or_default_def py_str_bool_def get_is_active_def
          split: option.splits)
  from status_only_visible [OF inv r, of act inact]
  show ?thesis unfolding e f by simp
qed

text \<open>
  What the dashboard script's own function shows when it is run on a page without a
  status selected, or with ``All Types'' unchecked and no action box checked: nothing.
\<close>

lemma inline_filterRules_no_status:
  assumes "page_inv docs p" "statusFilters p = []"
  shows "visible_rows (filterRules p) = []"
    "rulesCount (filterRules p) = (if docs = [] then None else Some 0)"
  using assms
  by (simp_all add: visible_rows_filterRules rulesCount_filterRules filter_none_status)

lemma inline_filterRules_no_action:
  assumes "page_inv docs p" "\<not> filterAll p" "actionFilters p = []"
  shows "visible_rows (filterRules p) = []"
    "rulesCount (filterRules p) = (if docs = [] then None else Some 0)"
  using assms
  by (simp_all add: visible_rows_filterRules rulesCount_filterRules filter_none_action)

section \<open>Facts about the sidebar search\<close>

lemma filter_throwing_Inr:
  "filter_throwing f xs = Inr ys \<Longrightarrow> x \<in> set ys \<Longrightarrow> x \<in> set xs \<and> f x = Inr True"
proof (induction xs arbitrary: ys)
  case Nil
  then show ?case by simp
next
  case (Cons a xs)
  from Cons.prems(1) obtain b zs where fa: "f a = Inr b" and r: "filter_throwing f xs = Inr zs"
    and ys: "ys = (if b then a # zs else zs)"
    by (auto split: sum.splits)
  show ?case
  proof (cases "x \<in> set zs")
    case True
    with Cons.IH [OF r] show ?thesis by simp
  next
    case False
    with Cons.prems(2) ys have "b" "x = a" by (auto split: if_splits)
    with fa show ?thesis by simp
  qed
qed

lemma sidebar_matches_True:
  assumes "sidebar_matches t d = Inr True"
  shows "is_substring t (toLowerCase (doc_name d))
     \<or> is_substring t (toLowerCase (doc_description d))
     \<or> is_substring t (toLowerCase (doc_query d))
     \<or> is_substring t (toLowerCase (doc_action d))
     \<or> (\<exists>s. getActionName (doc_action d) = JString s \<and> is_substring t (toLowerCase s))"
  using assms
  by (auto simp: sidebar_matches_def str_includes_iff split: if_splits js_value.splits)

section \<open>Facts about the rule page\<close>

lemma words_active_text:
  "words (nl @ spaces 18 @ '' Rule is active'' @ nl @ spaces 18 @ ''and processing emails ''
            @ nl @ spaces 16) = words ''Rule is active and processing emails''"
  by code_simp

lemma words_inactive_text:
  "words (nl @ spaces 18 @ '' Rule is inactive'' @ nl @ spaces 18
            @ ''and not processing emails '' @ nl @ spaces 16)
   = words ''Rule is inactive and not processing emails''"
  by code_simp

lemma trim_active_badge:
  \<open>trim (nl @ spaces 14 @ ''<i class="bi bi-play-circle me-1"></i>Active'' @ nl @ spaces 12)
   = trim ''<i class="bi bi-play-circle me-1"></i>Active''\<close>
  by code_simp

lemma trim_inactive_badge:
  \<open>trim (nl @ spaces 14 @ ''<i class="bi bi-pause-circle me-1"></i>Inactive'' @ nl @ spaces 12)
   = trim ''<i class="bi bi-pause-circle me-1"></i>Inactive''\<close>
  by code_simp

lemma detail_text_after_ok:
  "words (status_text (detail_toggleStatus ruleId (OkData v) w))
   = words (status_text (render_detail (d\<lparr>doc_is_active := Some v\<rparr>)))"
proof (cases v)
  case True
  have a: "status_text (detail_toggleStatus ruleId (OkData v) w)
           = ''Rule is active and processing emails''"
    using True
    by (simp add: detail_toggleStatus_def detail_toggleRuleStatus_def write_first_badge_def
          split: list.splits)
  have b: "status_text (render_detail (d\<lparr>doc_is_active := Some v\<rparr>))
           = nl @ spaces 18 @ '' Rule is active'' @ nl @ spaces 18 @ ''and processing emails ''
               @ nl @ spaces 16"
    using True by (simp add: render_detail_def get_is_active_def)
  show ?thesis by (simp only: a b words_active_text)
next
  case False
  have a: "status_text (detail_toggleStatus ruleId (OkData v) w)
           = ''Rule is inactive and not processing emails''"
    using False
    by (simp add: detail_toggleStatus_def detail_toggleRuleStatus_def write_first_badge_def
          split: list.splits)
  have b: "status_text (render_detail (d\<lparr>doc_is_active := Some v\<rparr>))
           = nl @ spaces 18 @ '' Rule is inactive'' @ nl @ spaces 18
               @ ''and not processing emails '' @ nl @ spaces 16"
    using False by (simp add: render_detail_def get_is_active_def)
  show ?thesis by (simp only: a b words_inactive_text)
qed

lemma detail_toggle_after_ok:
  "status_toggle (detail_toggleStatus ruleId (OkData v) w) = (\<not> status_toggle w)"
  by (cases v)
    (simp_all add: detail_toggleStatus_def detail_toggleRuleStatus_def write_first_badge_def
      split: list.splits)

lemma detail_badge_after_ok:
  assumes "sidebar_badges w = []"
  shows "className (status_badge (detail_toggleStatus ruleId (OkData v) w))
         = className (status_badge (render_detail (d\<lparr>doc_is_active := Some v\<rparr>)))"
    "trim (innerHTML (status_badge (detail_toggleStatus ruleId (OkData v) w)))
         = trim (innerHTML (status_badge (render_detail (d\<lparr>doc_is_active := Some v\<rparr>))))"
proof -
  show "className (status_badge (detail_toggleStatus ruleId (OkData v) w))
         = className (status_badge (render_detail (d\<lparr>doc_is_active := Some v\<rparr>)))"
    using assms
    by (simp add: detail_toggleStatus_def detail_toggleRuleStatus_def write_first_badge_def
          render_detail_def get_is_active_def)
  show "trim (innerHTML (status_badge (detail_toggleStatus ruleId (OkData v) w)))
         = trim (innerHTML (status_badge (render_detail (d\<lparr>doc_is_active := Some v\<rparr>))))"
  proof (cases v)
    case True
    have a: \<open>innerHTML (status_badge (detail_toggleStatus ruleId (OkData v) w))
             = ''<i class="bi bi-play-circle me-1"></i>Active''\<close>
      using True assms
      by (simp add: detail_toggleStatus_def detail_toggleRuleStatus_def write_first_badge_def)
    have b: \<open>innerHTML (status_badge (render_detail (d\<lparr>doc_is_active := Some v\<rparr>)))
             = nl @ spaces 14 @ ''<i class="bi bi-play-circle me-1"></i>Active'' @ nl @ spaces 12\<close>
      using True by (simp add: render_detail_def get_is_active_def)
    show ?thesis by (simp only: a b trim_active_badge)
  next
    case False
    have a: \<open>innerHTML (status_badge (detail_toggleStatus ruleId (OkData v) w))
             = ''<i class="bi bi-pause-circle me-1"></i>Inactive''\<close>
      using False assms
      by (simp add: detail_toggleStatus_def detail_toggleRuleStatus_def write_first_badge_def)
    have b: \<open>innerHTML (status_badge (render_detail (d\<lparr>doc_is_active := Some v\<rparr>)))
             = nl @ spaces 14 @ ''<i class="bi bi-pause-circle me-1"></i>Inactive'' @ nl
                 @ spaces 12\<close>
      using False by (simp add: render_detail_def get_is_active_def)
    show ?thesis by (simp only: a b trim_inactive_badge)
  qed
qed

lemma detail_badge_with_sidebar_list:
  "sidebar_badges w \<noteq> [] \<Longrightarrow>
   status_badge (detail_toggleStatus ruleId (OkData v) w) = status_badge w"
  by (cases v)
    (simp_all add: detail_toggleStatus_def detail_toggleRuleStatus_def write_first_badge_def
      split: list.splits)

section \<open>Further facts about the sort by name\<close>

lemma insert_by_filter_tie:
  assumes c: "consistent_comparator lc"
  shows "filter (\<lambda>a. lc k (f a) = 0) (insert_by (\<lambda>a b. lc (f a) (f b)) x ys)
         = filter (\<lambda>a. lc k (f a) = 0) (x # ys)"
proof (induction ys)
  case Nil
  then show ?case by simp
next
  case (Cons y ys)
  show ?case
  proof (cases "lc (f x) (f y) \<le> 0")
    case True
    then show ?thesis by simp
  next
    case False
    have "\<not> (lc k (f x) = 0 \<and> lc k (f y) = 0)"
    proof
      assume h: "lc k (f x) = 0 \<and> lc k (f y) = 0"
      then have "lc (f x) k = 0" using consistent_sym0 [OF c] by blast
      with h have "lc (f x) (f y) \<le> 0"
        using consistentD(3) [OF c, of "f x" k "f y"] by simp
      with False show False by simp
    qed
    with False Cons show ?thesis by auto
  qed
qed

lemma stable_sort_filter_tie:
  assumes c: "consistent_comparator lc"
  shows "filter (\<lambda>a. lc k (f a) = 0) (stable_sort (\<lambda>a b. lc (f a) (f b)) xs)
         = filter (\<lambda>a. lc k (f a) = 0) xs"
  by (induction xs) (simp_all add: stable_sort_def insert_by_filter_tie [OF c])

lemma codeunit_compare_cases:
  "codeunit_compare a b = (if codeunits a < codeunits b then - 1
                           else if codeunits a = codeunits b then 0 else 1)"
  by (auto simp: codeunit_compare_def)

lemma consistent_case_aware_compare: "consistent_comparator case_aware_compare"
  unfolding consistent_comparator_def case_aware_compare_def codeunit_compare_cases
  by (intro conjI allI impI) (auto split: if_splits)

lemma data_name_run:
  assumes "a < length docs"
  shows "data_name (rows (run impl lc Date evs (loadRules ats docs)) ! a)
         = toLowerCase (doc_name (docs ! a))"
proof -
  have inv: "page_inv docs (run impl lc Date evs (loadRules ats docs))"
    by (rule page_inv_run)
  from page_inv_static [OF inv assms] show ?thesis by (simp add: static_of_def)
qed

section \<open>The status toggle\<close>

text \<open>
  C1. When the toggle request fails, by a thrown error or by a response that is not ok, the
  page after the user's click and the handler is the page before the click, with one
  alert added: the checkbox is back at its value from before the click, the row's styling
  and its stored \<^verbatim>\<open>data-active\<close> are untouched, and so is every other row and control.
  The same holds for the switch on the rule's own page.
\<close>

theorem toggle_failure_restores_pre_toggle_state:
  "toggleStatus ruleId cb NotOk p = p\<lparr>alerts := alerts p @ [''Failed to toggle rule status'']\<rparr>
   \<and> toggleStatus ruleId cb (Throws msg) p
       = p\<lparr>alerts := alerts p @ [''Error toggling rule status: '' @ msg]\<rparr>
   \<and> detail_toggleStatus ruleId NotOk v
       = v\<lparr>detail_alerts := detail_alerts v @ [''Failed to toggle rule status'']\<rparr>
   \<and> detail_toggleStatus ruleId (Throws msg) v
       = v\<lparr>detail_alerts := detail_alerts v @ [''Error toggling rule status: '' @ msg]\<rparr>"
proof -
  have "detail_toggleStatus ruleId NotOk v
       = v\<lparr>detail_alerts := detail_alerts v @ [''Failed to toggle rule status'']\<rparr>"
    by (simp add: detail_toggleStatus_def detail_toggleRuleStatus_def)
  moreover have "detail_toggleStatus ruleId (Throws msg) v
       = v\<lparr>detail_alerts := detail_alerts v @ [''Error toggling rule status: '' @ msg]\<rparr>"
    by (simp add: detail_toggleStatus_def detail_toggleRuleStatus_def)
  ultimately show ?thesis
    using toggleStatus_NotOk [of ruleId cb p] toggleStatus_Throws [of ruleId cb msg p] by blast
qed

text \<open>
  C3, as the code has it. After a successful toggle the row's muted styling, link colour,
  pause icon and stored \<^verbatim>\<open>data-active\<close> follow the value \<open>v\<close> the server returned, whatever
  the checkbox showed. On the rule's own page the status text has the words the template
  renders for a rule whose state is \<open>v\<close>, and, while the sidebar lists no rule, the status
  badge has the class and, white space aside, the content the template renders for that
  state. The checkbox is not written on success: in both handlers it keeps the value the
  click gave it.
\<close>

theorem successful_toggle_display:
  "(cb < length (rows p) \<longrightarrow>
      table_secondary (rows (toggleStatus ruleId cb (OkData v) p) ! cb) = (\<not> v)
      \<and> link_text_muted (rows (toggleStatus ruleId cb (OkData v) p) ! cb) = (\<not> v)
      \<and> link_text_dark (rows (toggleStatus ruleId cb (OkData v) p) ! cb) = v
      \<and> pause_icon (rows (toggleStatus ruleId cb (OkData v) p) ! cb) = (\<not> v)
      \<and> data_active (rows (toggleStatus ruleId cb (OkData v) p) ! cb) = Some (js_string_bool v)
      \<and> checked (rows (toggleStatus ruleId cb (OkData v) p) ! cb) = (\<not> checked (rows p ! cb)))
   \<and> words (status_text (detail_toggleStatus ruleId (OkData v) w))
       = words (status_text (render_detail (d\<lparr>doc_is_active := Some v\<rparr>)))
   \<and> status_toggle (detail_toggleStatus ruleId (OkData v) w) = (\<not> status_toggle w)
   \<and> (sidebar_badges w = [] \<longrightarrow>
        className (status_badge (detail_toggleStatus ruleId (OkData v) w))
          = className (status_badge (render_detail (d\<lparr>doc_is_active := Some v\<rparr>)))
        \<and> trim (innerHTML (status_badge (detail_toggleStatus ruleId (OkData v) w)))
          = trim (innerHTML (status_badge (render_detail (d\<lparr>doc_is_active := Some v\<rparr>)))))"
proof -
  have "table_secondary (rows (toggleStatus ruleId cb (OkData v) p) ! cb) = (\<not> v)
      \<and> link_text_muted (rows (toggleStatus ruleId cb (OkData v) p) ! cb) = (\<not> v)
      \<and> link_text_dark (rows (toggleStatus ruleId cb (OkData v) p) ! cb) = v
      \<and> pause_icon (rows (toggleStatus ruleId cb (OkData v) p) ! cb) = (\<not> v)
      \<and> data_active (rows (toggleStatus ruleId cb (OkData v) p) ! cb) = Some (js_string_bool v)
      \<and> checked (rows (toggleStatus ruleId cb (OkData v) p) ! cb) = (\<not> checked (rows p ! cb))"
    if "cb < length (rows p)"
    using that by (simp add: row_after_ok style_row_def)
  then show ?thesis
    using detail_text_after_ok [of ruleId v w d] detail_toggle_after_ok [of ruleId v w]
      detail_badge_after_ok [of w ruleId v d]
    by blast
qed

theorem successful_toggle_display_witness:
  "0 < length (rows (loadRules action_types [rule_alpha]))
   \<and> table_secondary (rows (toggleStatus ''1'' 0 (OkData False) (loadRules action_types [rule_alpha])) ! 0)
   \<and> sidebar_badges (render_detail rule_alpha) = []
   \<and> className (status_badge (detail_toggleStatus ''1'' (OkData False) (render_detail rule_alpha)))
       = className (status_badge (render_detail (rule_alpha\<lparr>doc_is_active := Some False\<rparr>)))"
proof -
  have l: "0 < length (rows (loadRules action_types [rule_alpha]))"
    by code_simp
  have s: "sidebar_badges (render_detail rule_alpha) = []"
    by (simp add: render_detail_def)
  show ?thesis
    using l s successful_toggle_display [where cb = 0 and p = "loadRules action_types [rule_alpha]"
        and ruleId = "''1''" and v = False and w = "render_detail rule_alpha" and d = rule_alpha]
    by simp
qed

text \<open>
  C3 as stated fails for the status control: the rule Alpha is active and shown checked;
  the user clicks, and the server answers that the rule is active. The row is then styled
  as active and the rule's page says active, while the checkbox is left unchecked.
\<close>

theorem successful_toggle_checkbox_counterexample:
  "checked (rows (loadRules action_types [rule_alpha]) ! 0)
   \<and> \<not> table_secondary (rows (toggleStatus ''1'' 0 (OkData True) (loadRules action_types [rule_alpha])) ! 0)
   \<and> \<not> checked (rows (toggleStatus ''1'' 0 (OkData True) (loadRules action_types [rule_alpha])) ! 0)
   \<and> status_toggle (render_detail rule_alpha)
   \<and> \<not> status_toggle (detail_toggleStatus ''1'' (OkData True) (render_detail rule_alpha))
   \<and> status_text (detail_toggleStatus ''1'' (OkData True) (render_detail rule_alpha))
       = ''Rule is active and processing emails''"
  by code_simp

section \<open>The filter controls\<close>

text \<open>
  C2 on the page as assembled. The rule Alpha is loaded active and the count shows 1; the
  user unchecks ``Active Rules''. The \<^verbatim>\<open>filterRules()\<close> of the checkbox is the sidebar
  script's function, which throws when called without an argument, so the count still
  shows 1 and the row stays visible, although the rule does not pass the matching rule
  under the controls as they now stand. The dashboard script's own function, run on this
  page, shows 0.
\<close>

theorem count_after_unchecking_active_rules:
  "\<not> filterActive (on_status_filter_change False True (loadRules action_types [rule_alpha]))
   \<and> filter (doc_passes (on_status_filter_change False True (loadRules action_types [rule_alpha])))
        [rule_alpha] = []
   \<and> rulesCount (on_status_filter_change False True (loadRules action_types [rule_alpha]))
       = Some 1
   \<and> visible_rows (on_status_filter_change False True (loadRules action_types [rule_alpha]))
       = [0]
   \<and> rulesCount (filterRules (on_status_filter_change False True
        (loadRules action_types [rule_alpha]))) = Some 0"
proof -
  have "\<not> filterActive (on_status_filter_change False True (loadRules action_types [rule_alpha]))"
    by (simp add: on_status_filter_change_eq)
  moreover have "get_is_active rule_alpha"
    by (simp add: get_is_active_def rule_alpha_def)
  ultimately have "filter (doc_passes (on_status_filter_change False True
      (loadRules action_types [rule_alpha]))) [rule_alpha] = []"
    by (simp add: doc_passes_def)
  moreover have "\<not> filterActive (on_status_filter_change False True (loadRules action_types [rule_alpha]))
   \<and> rulesCount (on_status_filter_change False True (loadRules action_types [rule_alpha]))
       = Some 1
   \<and> visible_rows (on_status_filter_change False True (loadRules action_types [rule_alpha]))
       = [0]
   \<and> rulesCount (filterRules (on_status_filter_change False True
        (loadRules action_types [rule_alpha]))) = Some 0"
    by code_simp
  ultimately show ?thesis by blast
qed

text \<open>
  C4, as the code has it, for the sidebar search. When the search with the typed text
  \<open>t\<close> completes, every rule it lists is one of the fetched rules, and the lower-cased,
  trimmed term is a substring of the rule's lower-cased name, description, query or
  action, or of the lower-cased display name of its action.
\<close>

theorem sidebar_search_lists_only_matches:
  "sidebar_filterRules (Some t) sb = Inr sb' \<and> d \<in> set (sidebar_items sb') \<longrightarrow>
     d \<in> set (rulesData sb)
     \<and> (is_substring (trim (toLowerCase t)) (toLowerCase (doc_name d))
        \<or> is_substring (trim (toLowerCase t)) (toLowerCase (doc_description d))
        \<or> is_substring (trim (toLowerCase t)) (toLowerCase (doc_query d))
        \<or> is_substring (trim (toLowerCase t)) (toLowerCase (doc_action d))
        \<or> (\<exists>s. getActionName (doc_action d) = JString s
                \<and> is_substring (trim (toLowerCase t)) (toLowerCase s)))"
proof (intro impI, elim conjE)
  assume r: "sidebar_filterRules (Some t) sb = Inr sb'" and d: "d \<in> set (sidebar_items sb')"
  show "d \<in> set (rulesData sb)
     \<and> (is_substring (trim (toLowerCase t)) (toLowerCase (doc_name d))
        \<or> is_substring (trim (toLowerCase t)) (toLowerCase (doc_description d))
        \<or> is_substring (trim (toLowerCase t)) (toLowerCase (doc_query d))
        \<or> is_substring (trim (toLowerCase t)) (toLowerCase (doc_action d))
        \<or> (\<exists>s. getActionName (doc_action d) = JString s
                \<and> is_substring (trim (toLowerCase t)) (toLowerCase s)))"
  proof (cases "trim (toLowerCase t) = []")
    case True
    with r have "sb' = renderRulesList (rulesData sb) sb"
      by (simp add: sidebar_filterRules_def)
    with d have "d \<in> set (rulesData sb)" by (simp add: renderRulesList_def)
    moreover have "is_substring (trim (toLowerCase t)) (toLowerCase (doc_name d))"
      using True by (simp add: is_substring_Nil)
    ultimately show ?thesis by blast
  next
    case False
    with r obtain ys where f: "filter_throwing (sidebar_matches (trim (toLowerCase t))) (rulesData sb) = Inr ys"
      and sb': "sb' = renderRulesList ys sb"
      by (auto simp: sidebar_filterRules_def Let_def split: sum.splits)
    from d sb' have "d \<in> set ys" by (simp add: renderRulesList_def)
    from filter_throwing_Inr [OF f this] sidebar_matches_True [of "trim (toLowerCase t)" d]
    show ?thesis by blast
  qed
qed

theorem sidebar_search_lists_only_matches_witness:
  "sidebar_filterRules (Some '' ALPHA'') sidebar_two
     = Inr (sidebar_two\<lparr>sidebar_items := [rule_alpha]\<rparr>)
   \<and> rule_alpha \<in> set (sidebar_items (sidebar_two\<lparr>sidebar_items := [rule_alpha]\<rparr>))
   \<and> rule_alpha \<in> set (rulesData sidebar_two)"
proof -
  have r: "sidebar_filterRules (Some '' ALPHA'') sidebar_two
     = Inr (sidebar_two\<lparr>sidebar_items := [rule_alpha]\<rparr>)"
    by code_simp
  show ?thesis
    using r sidebar_search_lists_only_matches [where t = "'' ALPHA''" and sb = sidebar_two
        and sb' = "sidebar_two\<lparr>sidebar_items := [rule_alpha]\<rparr>" and d = rule_alpha]
    by simp
qed

text \<open>
  C4 as stated fails for the sidebar search: the term \<^verbatim>\<open>sms\<close> lists the rule Alpha,
  whose action is \<^verbatim>\<open>sms\<close>, although the term occurs in none of its name, description
  and query.
\<close>

theorem sidebar_search_matches_action_counterexample:
  "sidebar_filterRules (Some ''sms'') sidebar_two
     = Inr (sidebar_two\<lparr>sidebar_items := [rule_alpha]\<rparr>)
   \<and> trim (toLowerCase ''sms'') \<noteq> []
   \<and> \<not> is_substring (trim (toLowerCase ''sms'')) (toLowerCase (doc_name rule_alpha))
   \<and> \<not> is_substring (trim (toLowerCase ''sms'')) (toLowerCase (doc_description rule_alpha))
   \<and> \<not> is_substring (trim (toLowerCase ''sms'')) (toLowerCase (doc_query rule_alpha))"
  unfolding str_includes_iff [symmetric] by code_simp


text \<open>
  C6 on the page as assembled. The rules Alpha and Beta are loaded and the user unchecks
  both status boxes. The \<^verbatim>\<open>filterRules()\<close> of the checkboxes is the sidebar script's
  function, which throws when called without an argument: the count still shows 2 and
  both rows stay visible. The dashboard script's own function, run on this page, shows 0
  and hides both rows.
\<close>

theorem unchecked_status_boxes_leave_every_rule_visible:
  "statusFilters (on_status_filter_change False False
       (loadRules action_types [rule_alpha, rule_beta])) = []
   \<and> sidebar_filterRules None (side (loadRules action_types [rule_alpha, rule_beta]))
       = Inl TypeError
   \<and> rulesCount (on_status_filter_change False False
       (loadRules action_types [rule_alpha, rule_beta])) = Some 2
   \<and> visible_rows (on_status_filter_change False False
       (loadRules action_types [rule_alpha, rule_beta])) = [0, 1]
   \<and> rulesCount (filterRules (on_status_filter_change False False
       (loadRules action_types [rule_alpha, rule_beta]))) = Some 0
   \<and> visible_rows (filterRules (on_status_filter_change False False
       (loadRules action_types [rule_alpha, rule_beta]))) = []"
  by code_simp

text \<open>
  C7. After any sequence of operations on a loaded rule set, filtering with a blank search
  term, ``All Types'' checked (which checks every action box) and both status boxes
  checked counts as many rules as were loaded, shows that number, and leaves every row
  visible.
\<close>

theorem unrestricted_filter_shows_every_rule:
  "trim (toLowerCase s) = [] \<Longrightarrow>
   visibleCount (on_status_filter_change True True (on_filterAll_change True
       (on_search_input s (run impl lc Date evs (loadRules ats docs))))) = length docs
   \<and> rulesCount (on_status_filter_change True True (on_filterAll_change True
       (on_search_input s (run impl lc Date evs (loadRules ats docs)))))
       = (if docs = [] then None else Some (length docs))
   \<and> set (visible_rows (on_status_filter_change True True (on_filterAll_change True
       (on_search_input s (run impl lc Date evs (loadRules ats docs)))))) = {..<length docs}"
proof -
  assume blank: "trim (toLowerCase s) = []"
  define q where "q = on_status_filter_change True True (on_filterAll_change True
       (on_search_input s (run impl lc Date evs (loadRules ats docs))))"
  have inv: "page_inv docs q"
    unfolding q_def by (intro page_inv_events page_inv_run)
  have u: "unfiltered docs q"
    unfolding q_def by (intro unfiltered_events unfiltered_run)
  have c: "trim (toLowerCase (searchInput q)) = []" "filterAll q"
    "statusFilters q = [''active'', ''inactive'']"
    by (simp_all add: q_def on_search_input_eq on_filterAll_change_eq on_status_filter_change_eq
          blank statusFilters_def)
  have len: "length (allRules q) = length docs"
    using length_tbody [OF inv] page_invD(4) [OF inv] by (metis length_map)
  have "visibleCount q = length docs"
    using len by (simp add: visibleCount_eq [OF inv] c filter_all_pass)
  moreover have "rulesCount q = (if docs = [] then None else Some (length docs))"
    using u by (simp add: unfiltered_def)
  moreover have "set (visible_rows q) = {..<length docs}"
    using page_invD(3) [OF inv] by (simp add: visible_rows_unfiltered [OF inv u])
  ultimately show ?thesis
    unfolding q_def by blast
qed

theorem unrestricted_filter_shows_every_rule_witness:
  "trim (toLowerCase ''  '') = []
   \<and> visibleCount (on_status_filter_change True True (on_filterAll_change True
       (on_search_input ''  '' (run reverse_order length_compare Date_parse
          [StatusFilterChange True False, Toggle 0 NotOk]
          (loadRules action_types [rule_alpha, rule_beta]))))) = 2"
proof -
  have b: "trim (toLowerCase ''  '') = []"
    by (simp add: trim_def toLowerCase_def toLowerChar_def isWhiteSpace_def)
  show ?thesis
    using b unrestricted_filter_shows_every_rule [OF b, of reverse_order length_compare Date_parse
        "[StatusFilterChange True False, Toggle 0 NotOk]" action_types "[rule_alpha, rule_beta]"]
    by simp
qed

section \<open>The sort\<close>

text \<open>
  C8, as the code has it. The rows carry the lower-cased name in \<^verbatim>\<open>data-name\<close>, and that
  is what the sort compares. For a consistent collation \<open>lc\<close> (the engine's
  \<^verbatim>\<open>localeCompare\<close>), sorting by name leaves the rows in an order whose lower-cased names
  are non-decreasing under \<open>lc\<close>; it only permutes the rows; rows whose lower-cased names
  compare equal keep their relative order; and sorting a second time changes nothing,
  neither the order nor \<^verbatim>\<open>allRules\<close>. On a loaded rule set the lower-cased names are
  those of the rules.
\<close>

theorem sort_by_name_sorted_stable_idempotent:
  "consistent_comparator lc \<Longrightarrow>
   sorted_wrt (\<lambda>a b. lc (data_name (rows (sortRules impl lc Date ''name'' p) ! a))
                       (data_name (rows (sortRules impl lc Date ''name'' p) ! b)) \<le> 0)
     (tbody (sortRules impl lc Date ''name'' p))
   \<and> set (tbody (sortRules impl lc Date ''name'' p)) = set (tbody p)
   \<and> length (tbody (sortRules impl lc Date ''name'' p)) = length (tbody p)
   \<and> filter (\<lambda>a. lc k (data_name (rows p ! a)) = 0) (tbody (sortRules impl lc Date ''name'' p))
       = filter (\<lambda>a. lc k (data_name (rows p ! a)) = 0) (tbody p)
   \<and> sortRules impl lc Date ''name'' (sortRules impl lc Date ''name'' p)
       = sortRules impl lc Date ''name'' p
   \<and> sorted_wrt (\<lambda>a b. lc (toLowerCase (doc_name (docs ! a))) (toLowerCase (doc_name (docs ! b))) \<le> 0)
       (tbody (sortRules impl lc Date ''name'' (run impl lc Date evs (loadRules ats docs))))"
proof -
  assume c: "consistent_comparator lc"
  have cc: "consistent_comparator (\<lambda>a b. lc (data_name (rows q ! a)) (data_name (rows q ! b)))"
    for q :: page
    by (rule consistent_comp [OF c])
  have con: "consistent_on (\<lambda>a b. lc (data_name (rows q ! a)) (data_name (rows q ! b))) A"
    for q :: page and A
    by (rule consistent_comparator_on [OF cc])
  have tb: "tbody (sortRules impl lc Date ''name'' q)
            = stable_sort (\<lambda>a b. lc (data_name (rows q ! a)) (data_name (rows q ! b))) (tbody q)"
    for q :: page
    by (simp add: sortRules_name_tbody array_sort_consistent [OF con])
  have 1: "sorted_wrt (\<lambda>a b. lc (data_name (rows q ! a)) (data_name (rows q ! b)) \<le> 0)
             (tbody (sortRules impl lc Date ''name'' q))" for q :: page
    unfolding tb by (rule sorted_stable_sort [OF cc])
  have 2: "set (tbody (sortRules impl lc Date ''name'' p)) = set (tbody p)"
    "length (tbody (sortRules impl lc Date ''name'' p)) = length (tbody p)"
    by (simp_all add: tb set_stable_sort length_stable_sort)
  have 3: "filter (\<lambda>a. lc k (data_name (rows p ! a)) = 0) (tbody (sortRules impl lc Date ''name'' p))
       = filter (\<lambda>a. lc k (data_name (rows p ! a)) = 0) (tbody p)"
    unfolding tb by (rule stable_sort_filter_tie [OF c])
  have 4: "sortRules impl lc Date ''name'' (sortRules impl lc Date ''name'' p)
           = sortRules impl lc Date ''name'' p"
    by (rule sortRules_twice)
      (simp add: compareRows_def array_sort_consistent [OF con] stable_sort_idem [OF cc])
  define P where "P = run impl lc Date evs (loadRules ats docs)"
  have inv: "page_inv docs P" unfolding P_def by (rule page_inv_run)
  have 5: "sorted_wrt (\<lambda>a b. lc (toLowerCase (doc_name (docs ! a))) (toLowerCase (doc_name (docs ! b))) \<le> 0)
       (tbody (sortRules impl lc Date ''name'' P))"
  proof (rule sorted_wrt_mono_rel [OF _ 1 [of P]])
    fix a b
    assume "a \<in> set (tbody (sortRules impl lc Date ''name'' P))"
      "b \<in> set (tbody (sortRules impl lc Date ''name'' P))"
      and le: "lc (data_name (rows P ! a)) (data_name (rows P ! b)) \<le> 0"
    then have "a \<in> set (tbody P)" "b \<in> set (tbody P)"
      by (simp_all add: tb set_stable_sort)
    then have "a < length docs" "b < length docs"
      using page_invD(3) [OF inv] by simp_all
    then have "data_name (rows P ! a) = toLowerCase (doc_name (docs ! a))"
      "data_name (rows P ! b) = toLowerCase (doc_name (docs ! b))"
      unfolding P_def by (simp_all add: data_name_run)
    with le show "lc (toLowerCase (doc_name (docs ! a))) (toLowerCase (doc_name (docs ! b))) \<le> 0"
      by simp
  qed
  from 1 [of p] 2 3 4 5 show ?thesis
    unfolding P_def by (simp add: sortRules_rows)
qed

theorem sort_by_name_sorted_stable_idempotent_witness:
  "consistent_comparator length_compare
   \<and> tbody (sortRules reverse_order length_compare Date_parse ''name''
        (loadRules action_types [rule_alpha, rule_undated, rule_beta])) = [2, 0, 1]
   \<and> sortRules reverse_order length_compare Date_parse ''name''
       (sortRules reverse_order length_compare Date_parse ''name''
        (loadRules action_types [rule_alpha, rule_undated, rule_beta]))
     = sortRules reverse_order length_compare Date_parse ''name''
        (loadRules action_types [rule_alpha, rule_undated, rule_beta])"
proof -
  have con: "consistent_on (\<lambda>a b. length_compare (data_name (rs ! a)) (data_name (rs ! b))) A"
    for rs :: "row list" and A
    by (rule consistent_comparator_on [OF consistent_comp [OF consistent_length_compare]])
  have t: "tbody (sortRules reverse_order length_compare Date_parse ''name''
        (loadRules action_types [rule_alpha, rule_undated, rule_beta]))
      = stable_sort (\<lambda>a b. length_compare
            (data_name (rows (loadRules action_types [rule_alpha, rule_undated, rule_beta]) ! a))
            (data_name (rows (loadRules action_types [rule_alpha, rule_undated, rule_beta]) ! b)))
          (tbody (loadRules action_types [rule_alpha, rule_undated, rule_beta]))"
    by (simp add: sortRules_name_tbody array_sort_consistent [OF con])
  have "stable_sort (\<lambda>a b. length_compare
            (data_name (rows (loadRules action_types [rule_alpha, rule_undated, rule_beta]) ! a))
            (data_name (rows (loadRules action_types [rule_alpha, rule_undated, rule_beta]) ! b)))
          (tbody (loadRules action_types [rule_alpha, rule_undated, rule_beta])) = [2, 0, 1]"
    by code_simp
  with t have t': "tbody (sortRules reverse_order length_compare Date_parse ''name''
        (loadRules action_types [rule_alpha, rule_undated, rule_beta])) = [2, 0, 1]"
    by simp
  show ?thesis
    using t' consistent_length_compare
      sort_by_name_sorted_stable_idempotent [OF consistent_length_compare,
        where impl = reverse_order and Date = Date_parse
          and p = "loadRules action_types [rule_alpha, rule_undated, rule_beta]"]
    by blast
qed

text \<open>
  C8 as stated fails for names that differ in case: the rules Alpha and alpha have the
  same \<^verbatim>\<open>data-name\<close>, so the sort by name keeps them in the order Alpha, alpha, which is
  decreasing under a consistent collation that puts the lower-case name first.
\<close>

theorem name_sort_ignores_case_counterexample:
  "consistent_comparator case_aware_compare
   \<and> tbody (loadRules action_types [rule_alpha, rule_alpha_lower]) = [0, 1]
   \<and> tbody (sortRules reverse_order case_aware_compare Date_parse ''name''
        (loadRules action_types [rule_alpha, rule_alpha_lower])) = [0, 1]
   \<and> 0 < case_aware_compare (doc_name ([rule_alpha, rule_alpha_lower] ! 0))
            (doc_name ([rule_alpha, rule_alpha_lower] ! 1))"
proof -
  have con: "consistent_on (\<lambda>a b. case_aware_compare (data_name (rs ! a)) (data_name (rs ! b))) A"
    for rs :: "row list" and A
    by (rule consistent_comparator_on [OF consistent_comp [OF consistent_case_aware_compare]])
  have t: "tbody (sortRules reverse_order case_aware_compare Date_parse ''name''
        (loadRules action_types [rule_alpha, rule_alpha_lower]))
      = stable_sort (\<lambda>a b. case_aware_compare
            (data_name (rows (loadRules action_types [rule_alpha, rule_alpha_lower]) ! a))
            (data_name (rows (loadRules action_types [rule_alpha, rule_alpha_lower]) ! b)))
          (tbody (loadRules action_types [rule_alpha, rule_alpha_lower]))"
    by (simp add: sortRules_name_tbody array_sort_consistent [OF con])
  have s: "stable_sort (\<lambda>a b. case_aware_compare
            (data_name (rows (loadRules action_types [rule_alpha, rule_alpha_lower]) ! a))
            (data_name (rows (loadRules action_types [rule_alpha, rule_alpha_lower]) ! b)))
          (tbody (loadRules action_types [rule_alpha, rule_alpha_lower])) = [0, 1]"
    by code_simp
  have l: "tbody (loadRules action_types [rule_alpha, rule_alpha_lower]) = [0, 1]"
    by code_simp
  have g: "0 < case_aware_compare (doc_name ([rule_alpha, rule_alpha_lower] ! 0))
            (doc_name ([rule_alpha, rule_alpha_lower] ! 1))"
    by code_simp
  from t s l g consistent_case_aware_compare show ?thesis by simp
qed

text \<open>
  C9, as the code has it. When every row has a valid modified date, sorting by
  \<^verbatim>\<open>modified\<close> permutes the rows into newest-first order. A row whose modified date is
  invalid compares as equal to every other row; a table of two rows of which one has an
  invalid date keeps its order. The row of a rule without a modified date carries the
  text \<^verbatim>\<open>None\<close>, which is no date.
\<close>

theorem sort_by_modified_newest_first:
  "((\<forall>a\<in>set (tbody p). modified_time Date p a \<noteq> None) \<longrightarrow>
      sorted_wrt (\<lambda>a b. \<exists>x y. modified_time Date p a = Some x \<and> modified_time Date p b = Some y \<and> y \<le> x)
        (tbody (sortRules impl lc Date ''modified'' p))
      \<and> set (tbody (sortRules impl lc Date ''modified'' p)) = set (tbody p))
   \<and> (modified_time Date p a = None \<or> modified_time Date p b = None \<longrightarrow>
        compareRows lc Date ''modified'' (rows p ! a) (rows p ! b) = 0)
   \<and> (tbody p = [a, b] \<and> (modified_time Date p a = None \<or> modified_time Date p b = None) \<longrightarrow>
        tbody (sortRules impl lc Date ''modified'' p) = [a, b])
   \<and> (i < length docs \<and> doc_modified_date (docs ! i) = None \<longrightarrow>
        data_modified (rows (run impl lc Date evs (loadRules ats docs)) ! i) = ''None'')"
proof (intro conjI impI)
  assume valid: "\<forall>a\<in>set (tbody p). modified_time Date p a \<noteq> None"
  let ?cmp = "\<lambda>a b. date_minus (modified_time Date p b) (modified_time Date p a)"
  let ?cmp' = "\<lambda>a b. time_or_0 (modified_time Date p b) - time_or_0 (modified_time Date p a)"
  have st: "array_sort impl ?cmp (tbody p) = stable_sort ?cmp (tbody p)"
    by (rule array_sort_consistent [OF modified_consistent_on [OF valid]])
  have eq: "stable_sort ?cmp (tbody p) = stable_sort ?cmp' (tbody p)"
  proof (rule stable_sort_cong)
    fix x y assume "x \<in> set (tbody p)" "y \<in> set (tbody p)"
    with valid have "modified_time Date p x \<noteq> None" "modified_time Date p y \<noteq> None"
      by blast+
    then obtain u v where "modified_time Date p x = Some u" "modified_time Date p y = Some v"
      by blast
    then show "?cmp x y = ?cmp' x y" by (simp add: date_minus_def time_or_0_def)
  qed
  have s: "sorted_wrt (\<lambda>a b. ?cmp' a b \<le> 0) (stable_sort ?cmp' (tbody p))"
    by (rule sorted_stable_sort [OF consistent_time])
  have "sorted_wrt (\<lambda>a b. \<exists>x y. modified_time Date p a = Some x \<and> modified_time Date p b = Some y \<and> y \<le> x)
          (stable_sort ?cmp' (tbody p))"
  proof (rule sorted_wrt_mono_rel [OF _ s])
    fix a b assume "a \<in> set (stable_sort ?cmp' (tbody p))" "b \<in> set (stable_sort ?cmp' (tbody p))"
      and le: "?cmp' a b \<le> 0"
    then have "a \<in> set (tbody p)" "b \<in> set (tbody p)" by (simp_all add: set_stable_sort)
    with valid have "modified_time Date p a \<noteq> None" "modified_time Date p b \<noteq> None"
      by blast+
    then obtain u v where uv: "modified_time Date p a = Some u" "modified_time Date p b = Some v"
      by blast
    with le show "\<exists>x y. modified_time Date p a = Some x \<and> modified_time Date p b = Some y \<and> y \<le> x"
      by (simp add: time_or_0_def)
  qed
  then show "sorted_wrt (\<lambda>a b. \<exists>x y. modified_time Date p a = Some x \<and> modified_time Date p b = Some y \<and> y \<le> x)
        (tbody (sortRules impl lc Date ''modified'' p))"
    by (simp add: sortRules_modified_tbody st eq)
  show "set (tbody (sortRules impl lc Date ''modified'' p)) = set (tbody p)"
    by (simp add: sortRules_modified_tbody set_array_sort)
next
  assume "modified_time Date p a = None \<or> modified_time Date p b = None"
  then show "compareRows lc Date ''modified'' (rows p ! a) (rows p ! b) = 0"
    by (auto simp: compareRows_def date_minus_def modified_time_def split: option.splits)
next
  assume h: "tbody p = [a, b] \<and> (modified_time Date p a = None \<or> modified_time Date p b = None)"
  let ?cmp = "\<lambda>x y. date_minus (modified_time Date p y) (modified_time Date p x)"
  from h have u: "modified_time Date p a = None \<or> modified_time Date p b = None"
    by (rule conjunct2)
  have "consistent_on ?cmp (set [a, b])"
    by (rule undated_pair_consistent_on [OF u])
  then have "array_sort impl ?cmp [a, b] = stable_sort ?cmp [a, b]"
    by (rule array_sort_consistent)
  moreover have "stable_sort ?cmp [a, b] = [a, b]"
    using u by (auto simp: stable_sort_def date_minus_def split: option.splits)
  ultimately show "tbody (sortRules impl lc Date ''modified'' p) = [a, b]"
    using h by (simp add: sortRules_modified_tbody)
next
  assume h: "i < length docs \<and> doc_modified_date (docs ! i) = None"
  have inv: "page_inv docs (run impl lc Date evs (loadRules ats docs))"
    by (rule page_inv_run)
  from h have i: "i < length docs" by (rule conjunct1)
  from page_inv_static [OF inv i] h
  show "data_modified (rows (run impl lc Date evs (loadRules ats docs)) ! i) = ''None''"
    by (simp add: static_of_def py_str_date_def)
qed

theorem sort_by_modified_newest_first_witness:
  "modified_time Date_parse (loadRules action_types [rule_alpha, rule_beta]) 0 = Some 1705314600000
   \<and> modified_time Date_parse (loadRules action_types [rule_alpha, rule_beta]) 1 = Some 1706961600250
   \<and> tbody (sortRules reverse_order length_compare Date_parse ''modified''
        (loadRules action_types [rule_alpha, rule_beta])) = [1, 0]
   \<and> set (tbody (sortRules reverse_order length_compare Date_parse ''modified''
        (loadRules action_types [rule_alpha, rule_beta])))
       = set (tbody (loadRules action_types [rule_alpha, rule_beta]))
   \<and> tbody (loadRules action_types [rule_undated, rule_alpha]) = [0, 1]
   \<and> modified_time Date_parse (loadRules action_types [rule_undated, rule_alpha]) 0 = None
   \<and> tbody (sortRules reverse_order length_compare Date_parse ''modified''
        (loadRules action_types [rule_undated, rule_alpha])) = [0, 1]
   \<and> 0 < length [rule_undated, rule_alpha]
   \<and> doc_modified_date ([rule_undated, rule_alpha] ! 0) = None
   \<and> data_modified (rows (run reverse_order length_compare Date_parse []
          (loadRules action_types [rule_undated, rule_alpha])) ! 0) = ''None''"
proof -
  have t: "modified_time Date_parse (loadRules action_types [rule_alpha, rule_beta]) 0 = Some 1705314600000"
    "modified_time Date_parse (loadRules action_types [rule_alpha, rule_beta]) 1 = Some 1706961600250"
    by (simp_all add: modified_time_def modified_alpha_beta modified_alpha_beta_Suc Date_parse_alpha
          Date_parse_beta)
  have l: "0 < length [rule_undated, rule_alpha]" by simp
  have d: "doc_modified_date ([rule_undated, rule_alpha] ! 0) = None"
    by (simp add: rule_undated_def)
  show ?thesis
    using t l d valid_alpha_beta sorted_alpha_beta modified_undated_alpha(1) undated_first
      sort_by_modified_newest_first [where p = "loadRules action_types [rule_alpha, rule_beta]"
        and Date = Date_parse and lc = length_compare and impl = reverse_order]
      sort_by_modified_newest_first [where p = "loadRules action_types [rule_undated, rule_alpha]"
        and Date = Date_parse and lc = length_compare and impl = reverse_order and a = 0 and b = 1
        and i = 0 and docs = "[rule_undated, rule_alpha]" and evs = "[]" and ats = action_types]
    by blast
qed

text \<open>
  C9 as stated fails: with the undated rule rendered first and the rule Alpha, which has
  a valid modified date, second, sorting by \<^verbatim>\<open>modified\<close> leaves the undated rule first.
\<close>

theorem undated_rule_not_last_counterexample:
  "tbody (loadRules action_types [rule_undated, rule_alpha]) = [0, 1]
   \<and> tbody (sortRules reverse_order length_compare Date_parse ''modified''
            (loadRules action_types [rule_undated, rule_alpha])) = [0, 1]
   \<and> modified_time Date_parse (loadRules action_types [rule_undated, rule_alpha]) 0 = None
   \<and> modified_time Date_parse (loadRules action_types [rule_undated, rule_alpha]) 1 = Some 1705314600000"
proof -
  let ?p = "loadRules action_types [rule_undated, rule_alpha]"
  let ?cmp = "\<lambda>x y. date_minus (modified_time Date_parse ?p y) (modified_time Date_parse ?p x)"
  have m: "modified_time Date_parse ?p 0 = None" "modified_time Date_parse ?p 1 = Some 1705314600000"
    by (simp_all add: modified_time_def modified_undated_alpha modified_undated_alpha_Suc
          Date_parse_None Date_parse_alpha)
  have "consistent_on ?cmp (set [0, 1])"
    by (rule undated_pair_consistent_on) (simp add: m)
  then have "array_sort reverse_order ?cmp [0, 1] = stable_sort ?cmp [0, 1]"
    by (rule array_sort_consistent)
  moreover have "stable_sort ?cmp [0, 1] = [0, 1]"
    using m by (simp add: stable_sort_def date_minus_def)
  ultimately have "tbody (sortRules reverse_order length_compare Date_parse ''modified'' ?p) = [0, 1]"
    by (simp add: sortRules_modified_tbody modified_undated_alpha(1))
  with m modified_undated_alpha(1) show ?thesis by simp
qed

section \<open>The classification by the stored flag\<close>

text \<open>
  C10, for the function \<^verbatim>\<open>filterRules()\<close> of the dashboard script (which the controls of
  the assembled page do not reach), run with a blank search term and ``All Types''
  checked on a page reached by any sequence of operations. With only ``Active Rules''
  checked it shows exactly the rows whose entry in \<^verbatim>\<open>allRules\<close> has the flag \<^verbatim>\<open>True\<close>, and
  counts them; with only ``Inactive Rules'' checked it shows exactly the others. On the
  loaded page a rule is shown as active unless its document says it is inactive, so a
  missing flag counts as active. After a sort, which takes the entries anew from the
  rows, a row is shown as active exactly when its \<^verbatim>\<open>data-active\<close> is missing, empty or
  \<^verbatim>\<open>True\<close>. A successful toggle alone does not change how the row is classified, since
  the entries are not taken anew; after a successful toggle and a sort the row is
  classified as inactive whatever the server answered, since the toggle stores \<^verbatim>\<open>true\<close>
  or \<^verbatim>\<open>false\<close>.
\<close>

theorem stored_flag_classification:
  "(r \<in> set (allRules (run impl lc Date evs (loadRules ats docs))) \<longrightarrow>
      (visible (filterRules (status_only True False (run impl lc Date evs (loadRules ats docs))))
         (element r) \<longleftrightarrow> active r = ''True'')
      \<and> (visible (filterRules (status_only False True (run impl lc Date evs (loadRules ats docs))))
         (element r) \<longleftrightarrow> active r \<noteq> ''True''))
   \<and> rulesCount (filterRules (status_only True False (run impl lc Date evs (loadRules ats docs))))
       = (if docs = [] then None
          else Some (length (filter (\<lambda>r. active r = ''True'')
                 (allRules (run impl lc Date evs (loadRules ats docs))))))
   \<and> (a < length docs \<longrightarrow>
        (visible (filterRules (status_only True False (loadRules ats docs))) a
           \<longleftrightarrow> doc_is_active (docs ! a) \<noteq> Some False)
        \<and> (visible (filterRules (status_only True False
               (sortRules impl lc Date sortBy (run impl lc Date evs (loadRules ats docs))))) a
           \<longleftrightarrow> data_active (rows (run impl lc Date evs (loadRules ats docs)) ! a)
                 \<in> {None, Some [], Some ''True''})
        \<and> (visible (filterRules (status_only True False
               (toggleStatus ruleId a (OkData v) (run impl lc Date evs (loadRules ats docs))))) a
           \<longleftrightarrow> visible (filterRules (status_only True False
                 (run impl lc Date evs (loadRules ats docs)))) a)
        \<and> \<not> visible (filterRules (status_only True False (sortRules impl lc Date sortBy
               (toggleStatus ruleId a (OkData v) (run impl lc Date evs (loadRules ats docs)))))) a
        \<and> visible (filterRules (status_only False True (sortRules impl lc Date sortBy
               (toggleStatus ruleId a (OkData v) (run impl lc Date evs (loadRules ats docs)))))) a)"
proof -
  define P where "P = run impl lc Date evs (loadRules ats docs)"
  have inv: "page_inv docs P" unfolding P_def by (rule page_inv_run)
  have invT: "page_inv docs (toggleStatus ruleId a (OkData v) P)"
    by (rule page_inv_toggleStatus [OF inv])
  have 1: "(visible (filterRules (status_only True False P)) (element r) \<longleftrightarrow> active r = ''True'')
      \<and> (visible (filterRules (status_only False True P)) (element r) \<longleftrightarrow> active r \<noteq> ''True'')"
    if "r \<in> set (allRules P)"
    using status_only_visible [OF inv that, of True False]
      status_only_visible [OF inv that, of False True] by simp
  have 2: "rulesCount (filterRules (status_only True False P))
       = (if docs = [] then None
          else Some (length (filter (\<lambda>r. active r = ''True'') (allRules P))))"
    by (rule status_only_count [OF inv])
  have 3: "(visible (filterRules (status_only True False (loadRules ats docs))) a
           \<longleftrightarrow> doc_is_active (docs ! a) \<noteq> Some False)
        \<and> (visible (filterRules (status_only True False (sortRules impl lc Date sortBy P))) a
           \<longleftrightarrow> data_active (rows P ! a) \<in> {None, Some [], Some ''True''})
        \<and> (visible (filterRules (status_only True False (toggleStatus ruleId a (OkData v) P))) a
           \<longleftrightarrow> visible (filterRules (status_only True False P)) a)
        \<and> \<not> visible (filterRules (status_only True False (sortRules impl lc Date sortBy
               (toggleStatus ruleId a (OkData v) P)))) a
        \<and> visible (filterRules (status_only False True (sortRules impl lc Date sortBy
               (toggleStatus ruleId a (OkData v) P)))) a"
    if a: "a < length docs"
  proof -
    have l: "visible (filterRules (status_only True False (loadRules ats docs))) a
           \<longleftrightarrow> doc_is_active (docs ! a) \<noteq> Some False"
      using visible_loaded [OF a, of True False ats] by simp
    have s: "visible (filterRules (status_only True False (sortRules impl lc Date sortBy P))) a
           \<longleftrightarrow> data_active (rows P ! a) \<in> {None, Some [], Some ''True''}"
      using visible_after_sort [OF inv a, of True False impl lc Date sortBy] by simp
    from entry_at [OF inv a] obtain r where r: "r \<in> set (allRules P)" and e: "element r = a"
      by blast
    from r have rT: "r \<in> set (allRules (toggleStatus ruleId a (OkData v) P))"
      by (simp add: allRules_toggleStatus)
    have t: "visible (filterRules (status_only True False (toggleStatus ruleId a (OkData v) P))) a
           \<longleftrightarrow> visible (filterRules (status_only True False P)) a"
      using status_only_visible [OF inv r, of True False]
        status_only_visible [OF invT rT, of True False] e by simp
    have len: "a < length (rows P)" using a page_invD(1) [OF inv] by simp
    have d: "data_active (rows (toggleStatus ruleId a (OkData v) P) ! a) = Some (js_string_bool v)"
      by (simp add: row_after_ok [OF len])
    have n: "Some (js_string_bool v) \<notin> {None, Some [], Some ''True''}"
      by (simp add: js_string_bool_def)
    have u: "\<not> visible (filterRules (status_only True False (sortRules impl lc Date sortBy
               (toggleStatus ruleId a (OkData v) P)))) a"
      using visible_after_sort [OF invT a, of True False impl lc Date sortBy] n
      unfolding d by simp
    have w: "visible (filterRules (status_only False True (sortRules impl lc Date sortBy
               (toggleStatus ruleId a (OkData v) P)))) a"
      using visible_after_sort [OF invT a, of False True impl lc Date sortBy] n
      unfolding d by simp
    from l s t u w show ?thesis by blast
  qed
  from 1 2 3 show ?thesis unfolding P_def by blast
qed

theorem stored_flag_classification_witness:
  "snapshot (rows (loadRules action_types [rule_alpha, rule_beta])) 1
     \<in> set (allRules (run reverse_order length_compare Date_parse []
                (loadRules action_types [rule_alpha, rule_beta])))
   \<and> (1::nat) < length [rule_alpha, rule_beta]
   \<and> active (snapshot (rows (loadRules action_types [rule_alpha, rule_beta])) 1) = ''False''
   \<and> \<not> visible (filterRules (status_only True False
         (run reverse_order length_compare Date_parse []
            (loadRules action_types [rule_alpha, rule_beta])))) 1
   \<and> \<not> visible (filterRules (status_only True False (sortRules reverse_order length_compare
         Date_parse ''name'' (toggleStatus ''2'' 1 (OkData True)
           (run reverse_order length_compare Date_parse []
              (loadRules action_types [rule_alpha, rule_beta])))))) 1
   \<and> rulesCount (filterRules (status_only True False
         (run reverse_order length_compare Date_parse []
            (loadRules action_types [rule_alpha, rule_beta])))) = Some 1"
proof -
  have m: "snapshot (rows (loadRules action_types [rule_alpha, rule_beta])) 1
     \<in> set (allRules (run reverse_order length_compare Date_parse []
                (loadRules action_types [rule_alpha, rule_beta])))"
    by (simp add: run_def allRules_loadRules loadRules_def DOMContentLoaded_def
          call_filterRules_unchanged render_page_def)
  have l: "(1::nat) < length [rule_alpha, rule_beta]" by simp
  have e: "element (snapshot (rows (loadRules action_types [rule_alpha, rule_beta])) 1) = 1"
    by (simp add: snapshot_def)
  have f: "active (snapshot (rows (loadRules action_types [rule_alpha, rule_beta])) 1) = ''False''"
    by code_simp
  have c: "length (filter (\<lambda>r. active r = ''True'')
             (allRules (run reverse_order length_compare Date_parse []
                (loadRules action_types [rule_alpha, rule_beta])))) = 1"
    by code_simp
  show ?thesis
    using m l e f c
      stored_flag_classification [where impl = reverse_order and lc = length_compare
        and Date = Date_parse and evs = "[]" and ats = action_types
        and docs = "[rule_alpha, rule_beta]" and a = 1 and ruleId = "''2''" and v = True
        and sortBy = "''name''"
        and r = "snapshot (rows (loadRules action_types [rule_alpha, rule_beta])) 1"]
    by simp
qed

end
